theory Spec2Isabelle
  imports Complex_Main "HOL-Library.Multiset"
begin

section \<open>Grid model and pathfinder (utils/pathfinding.ts)\<close>

text \<open>
  A \<open>Position\<close> is the pair of a row and a column.  The source keeps rows and columns as
  JavaScript numbers that only ever hold integers; they are modelled as \<open>int\<close>.
\<close>

record Position =
  r :: int
  c :: int

definition GRID_ROWS :: int where
  "GRID_ROWS = 20"

definition GRID_COLS :: int where
  "GRID_COLS = 20"

datatype Algorithm = DIJKSTRA | GREEDY | ASTAR

datatype PathNode = PathNode (pos: Position) (distance: int) (parent: "PathNode option")

text \<open>The four directions, in the order of the source: up, down, left, right.\<close>

definition dirs :: "Position list" where
  "dirs = [\<lparr>r = -1, c = 0\<rparr>, \<lparr>r = 1, c = 0\<rparr>, \<lparr>r = 0, c = -1\<rparr>, \<lparr>r = 0, c = 1\<rparr>]"

definition inGrid :: "Position \<Rightarrow> bool" where
  "inGrid p \<longleftrightarrow> r p \<ge> 0 \<and> r p < GRID_ROWS \<and> c p \<ge> 0 \<and> c p < GRID_COLS"

definition getNeighbors :: "Position \<Rightarrow> Position list" where
  "getNeighbors p = filter inGrid (map (\<lambda>d. \<lparr>r = r p + r d, c = c p + c d\<rparr>) dirs)"

definition getManhattanDistance :: "Position \<Rightarrow> Position \<Rightarrow> int" where
  "getManhattanDistance a b = \<bar>r a - r b\<bar> + \<bar>c a - c b\<bar>"

text \<open>
  The result of a successful search.  The source also reports \<open>executionTime\<close>, the
  difference of two wall-clock readings; it has no functional content and is left out.
\<close>

record PathResult =
  path :: "Position list"
  visitedCount :: nat
  visitedOrder :: "Position list"

text \<open>
  The mutable locals of \<open>findPath\<close>.  The source keeps \<open>visited\<close> and \<open>walls\<close> as sets of the
  strings \<open>"r,c"\<close>; that key is injective on integer pairs, so both are modelled as sets of
  positions.
\<close>

record SearchState =
  queue :: "PathNode list"
  visited :: "Position set"
  visitedOrderAcc :: "Position list"

text \<open>The sort key of the frontier for each strategy (the comparator is the difference of keys).\<close>

fun priority :: "Algorithm \<Rightarrow> Position \<Rightarrow> PathNode \<Rightarrow> int" where
  "priority GREEDY end_pos a = getManhattanDistance (pos a) end_pos"
| "priority ASTAR end_pos a = distance a + getManhattanDistance (pos a) end_pos"
| "priority DIJKSTRA end_pos a = distance a"

text \<open>Walking the parent pointers from a node back to the root: the \<open>while (curr)\<close> loop.\<close>

fun chain :: "PathNode \<Rightarrow> Position list" where
  "chain (PathNode p d None) = [p]"
| "chain (PathNode p d (Some n)) = p # chain n"

text \<open>The body of the \<open>for (const neighbor of neighbors)\<close> loop.\<close>

definition visit :: "Position set \<Rightarrow> PathNode \<Rightarrow> Position \<Rightarrow> SearchState \<Rightarrow> SearchState" where
  "visit walls current neighbor st =
     (if neighbor \<notin> visited st \<and> neighbor \<notin> walls
      then st\<lparr>queue := queue st @ [PathNode neighbor (distance current + 1) (Some current)],
              visited := insert neighbor (visited st),
              visitedOrderAcc := visitedOrderAcc st @ [neighbor]\<rparr>
      else st)"

definition expand :: "Position set \<Rightarrow> PathNode \<Rightarrow> SearchState \<Rightarrow> SearchState" where
  "expand walls current st = fold (visit walls current) (getNeighbors (pos current)) st"

definition gridCells :: "Position set" where
  "gridCells = (\<lambda>(a, b). \<lparr>r = a, c = b\<rparr>) ` ({0..<GRID_ROWS} \<times> {0..<GRID_COLS})"

lemma finite_gridCells: "finite gridCells"
  by (simp add: gridCells_def)

lemma inGrid_gridCells: "inGrid p \<longleftrightarrow> p \<in> gridCells"
proof
  assume "inGrid p"
  then have "(r p, c p) \<in> {0..<GRID_ROWS} \<times> {0..<GRID_COLS}"
    by (simp add: inGrid_def)
  moreover have "p = (\<lambda>(a, b). \<lparr>r = a, c = b\<rparr>) (r p, c p)"
    by simp
  ultimately show "p \<in> gridCells"
    unfolding gridCells_def by (rule image_eqI[rotated])
next
  assume "p \<in> gridCells"
  then show "inGrid p"
    by (auto simp: gridCells_def inGrid_def)
qed

lemma getNeighbors_inGrid: "n \<in> set (getNeighbors p) \<Longrightarrow> n \<in> gridCells"
  by (simp add: getNeighbors_def inGrid_gridCells)

text \<open>Each enqueued cell leaves the set of unvisited grid cells: the loop's variant.\<close>

definition variant :: "SearchState \<Rightarrow> nat" where
  "variant st = card (gridCells - visited st) + length (queue st)"

lemma variant_visit:
  assumes "n \<in> gridCells"
  shows "variant (visit walls current n st) = variant st"
proof (cases "n \<notin> visited st \<and> n \<notin> walls")
  case True
  have fin: "finite (gridCells - visited st)"
    using finite_gridCells by simp
  have mem: "n \<in> gridCells - visited st"
    using True assms by simp
  have "Suc (card ((gridCells - visited st) - {n})) = card (gridCells - visited st)"
    using fin mem by (rule card_Suc_Diff1)
  moreover have "gridCells - insert n (visited st) = (gridCells - visited st) - {n}"
    by auto
  ultimately have "Suc (card (gridCells - insert n (visited st))) = card (gridCells - visited st)"
    by simp
  then show ?thesis
    using True by (simp add: variant_def visit_def)
next
  case False
  then show ?thesis
    by (auto simp: visit_def)
qed

lemma variant_fold_visit:
  "set ns \<subseteq> gridCells \<Longrightarrow> variant (fold (visit walls current) ns st) = variant st"
  by (induction ns arbitrary: st) (simp_all add: variant_visit)

lemma variant_expand: "variant (expand walls current st) = variant st"
  unfolding expand_def
  by (rule variant_fold_visit) (auto dest: getNeighbors_inGrid)

text \<open>
  The \<open>while (queue.length > 0)\<close> loop.  \<open>Array.prototype.sort\<close> is stable, as is
  \<open>sort_key\<close>; \<open>queue.shift()\<close> takes the head of the sorted queue.
\<close>

function search :: "Algorithm \<Rightarrow> Position \<Rightarrow> Position set \<Rightarrow> SearchState \<Rightarrow> nat \<Rightarrow> PathResult option" where
  "search algorithm end_pos walls st cnt =
     (case sort_key (priority algorithm end_pos) (queue st) of
        [] \<Rightarrow> None
      | current # rest \<Rightarrow>
          if r (pos current) = r end_pos \<and> c (pos current) = c end_pos
          then Some \<lparr>path = rev (chain current), visitedCount = cnt + 1,
                     visitedOrder = visitedOrderAcc st\<rparr>
          else search algorithm end_pos walls (expand walls current (st\<lparr>queue := rest\<rparr>)) (cnt + 1))"
  by pat_completeness auto
termination
proof (relation "measure (\<lambda>(algorithm, end_pos, walls, st, cnt). variant st)")
  show "wf (measure (\<lambda>(algorithm, end_pos, walls, st, cnt). variant st))"
    by simp
next
  fix algorithm :: Algorithm and end_pos :: Position and walls :: "Position set"
    and st :: SearchState and cnt :: nat and current :: PathNode and rest :: "PathNode list"
  assume sorted_queue: "sort_key (priority algorithm end_pos) (queue st) = current # rest"
  have "length (queue st) = length (sort_key (priority algorithm end_pos) (queue st))"
    by simp
  then have "length (queue st) = Suc (length rest)"
    using sorted_queue by simp
  then have "variant (st\<lparr>queue := rest\<rparr>) < variant st"
    by (simp add: variant_def)
  then show "((algorithm, end_pos, walls, expand walls current (st\<lparr>queue := rest\<rparr>), cnt + 1),
              (algorithm, end_pos, walls, st, cnt))
             \<in> measure (\<lambda>(algorithm, end_pos, walls, st, cnt). variant st)"
    by (simp add: variant_expand)
qed

declare search.simps [simp del]

definition findPath :: "Position \<Rightarrow> Position \<Rightarrow> Position set \<Rightarrow> Algorithm \<Rightarrow> PathResult option" where
  "findPath start end_pos walls algorithm =
     search algorithm end_pos walls
       \<lparr>queue = [PathNode start 0 None], visited = {start}, visitedOrderAcc = [start]\<rparr> 0"

subsection \<open>What every returned path looks like\<close>

text \<open>
  Every node of the frontier leads back to \<open>start\<close> through its parent pointers, and no cell
  on the way other than the root is a wall.
\<close>

definition nodeOK :: "Position \<Rightarrow> Position set \<Rightarrow> PathNode \<Rightarrow> bool" where
  "nodeOK start walls n \<longleftrightarrow> last (chain n) = start \<and> set (butlast (chain n)) \<inter> walls = {}"

lemma chain_nonempty: "chain n \<noteq> []"
  by (cases n rule: chain.cases) simp_all

lemma hd_chain: "hd (chain n) = pos n"
  by (cases n rule: chain.cases) simp_all

lemma nodeOK_child:
  "nodeOK start walls current \<Longrightarrow> nb \<notin> walls \<Longrightarrow> nodeOK start walls (PathNode nb d (Some current))"
  by (simp add: nodeOK_def chain_nonempty)

lemma visit_nodeOK:
  assumes "\<forall>n \<in> set (queue st). nodeOK start walls n" "nodeOK start walls current"
  shows "\<forall>n \<in> set (queue (visit walls current nb st)). nodeOK start walls n"
  using assms by (auto simp: visit_def nodeOK_child)

lemma fold_visit_nodeOK:
  "\<forall>n \<in> set (queue st). nodeOK start walls n \<Longrightarrow> nodeOK start walls current \<Longrightarrow>
   \<forall>n \<in> set (queue (fold (visit walls current) ns st)). nodeOK start walls n"
proof (induction ns arbitrary: st)
  case Nil
  then show ?case by simp
next
  case (Cons a ns)
  have "\<forall>n \<in> set (queue (visit walls current a st)). nodeOK start walls n"
    using Cons.prems by (rule visit_nodeOK)
  then show ?case
    using Cons.IH Cons.prems(2) by simp
qed

lemma search_returns_node:
  "search algorithm end_pos walls st cnt = Some res \<Longrightarrow>
   \<forall>n \<in> set (queue st). nodeOK start walls n \<Longrightarrow>
   \<exists>n. nodeOK start walls n \<and> pos n = end_pos \<and> path res = rev (chain n)"
proof (induction algorithm end_pos walls st cnt rule: search.induct)
  case (1 algorithm end_pos walls st cnt)
  show ?case
  proof (cases "sort_key (priority algorithm end_pos) (queue st)")
    case Nil
    then show ?thesis
      using "1.prems"(1) by (subst (asm) search.simps) simp
  next
    case (Cons current rest)
    have "set (current # rest) = set (queue st)"
      using Cons set_sort[of "priority algorithm end_pos" "queue st"] by simp
    then have cur: "nodeOK start walls current" and rest: "\<forall>n \<in> set rest. nodeOK start walls n"
      using "1.prems"(2) by auto
    show ?thesis
    proof (cases "r (pos current) = r end_pos \<and> c (pos current) = c end_pos")
      case True
      then have "pos current = end_pos"
        by simp
      moreover have "path res = rev (chain current)"
        using "1.prems"(1) Cons True by (subst (asm) search.simps) auto
      ultimately show ?thesis
        using cur by blast
    next
      case False
      have step: "search algorithm end_pos walls (expand walls current (st\<lparr>queue := rest\<rparr>)) (cnt + 1) = Some res"
        using "1.prems"(1) Cons False by (subst (asm) search.simps) simp
      have "\<forall>n \<in> set (queue (expand walls current (st\<lparr>queue := rest\<rparr>))). nodeOK start walls n"
        unfolding expand_def using rest cur by (intro fold_visit_nodeOK) simp_all
      then show ?thesis
        using "1.IH"[OF Cons False step] by simp
    qed
  qed
qed

lemma findPath_returns_node:
  assumes "findPath start end_pos walls algorithm = Some res"
  shows "\<exists>n. nodeOK start walls n \<and> pos n = end_pos \<and> path res = rev (chain n)"
proof -
  have "\<forall>n \<in> set (queue \<lparr>queue = [PathNode start 0 None], visited = {start}, visitedOrderAcc = [start]\<rparr>).
          nodeOK start walls n"
    by (simp add: nodeOK_def)
  then show ?thesis
    using assms unfolding findPath_def by (rule search_returns_node[rotated])
qed

text \<open>
  A sequence of cells is a walk on the grid when no cell is a wall and each cell is one of
  the four in-grid neighbours of the one before it.
\<close>

fun isGridWalk :: "Position set \<Rightarrow> Position list \<Rightarrow> bool" where
  "isGridWalk walls [] = True"
| "isGridWalk walls [p] = (p \<notin> walls)"
| "isGridWalk walls (p # q # ps) = (p \<notin> walls \<and> q \<in> set (getNeighbors p) \<and> isGridWalk walls (q # ps))"

definition wallsOf :: "(int \<times> int) list \<Rightarrow> Position set" where
  "wallsOf cells = set (map (\<lambda>(a, b). \<lparr>r = a, c = b\<rparr>) cells)"

definition cellsOf :: "(int \<times> int) list \<Rightarrow> Position list" where
  "cellsOf cells = map (\<lambda>(a, b). \<lparr>r = a, c = b\<rparr>) cells"

subsection \<open>An enclosed goal\<close>

lemma getNeighbors_sym:
  assumes "n \<in> set (getNeighbors p)" "inGrid p"
  shows "p \<in> set (getNeighbors n)"
proof -
  from assms(1) obtain d where d: "d \<in> set dirs" "n = \<lparr>r = r p + r d, c = c p + c d\<rparr>"
    by (auto simp: getNeighbors_def)
  define d' where "d' = \<lparr>r = - r d, c = - c d\<rparr>"
  have "d' \<in> set dirs"
    using d(1) by (auto simp: dirs_def d'_def)
  moreover have "p = \<lparr>r = r n + r d', c = c n + c d'\<rparr>"
    using d(2) by (simp add: d'_def)
  ultimately show ?thesis
    using assms(2) by (auto simp: getNeighbors_def)
qed

definition sealed :: "Position \<Rightarrow> Position \<Rightarrow> Position set \<Rightarrow> PathNode \<Rightarrow> bool" where
  "sealed start end_pos walls n \<longleftrightarrow>
     pos n \<noteq> end_pos \<and> (pos n = start \<or> (inGrid (pos n) \<and> pos n \<notin> walls))"

lemma visit_sealed:
  assumes "\<forall>n \<in> set (queue st). sealed start end_pos walls n"
    and "nb \<in> set (getNeighbors (pos current))" and "nb \<noteq> end_pos \<or> nb \<in> walls"
  shows "\<forall>n \<in> set (queue (visit walls current nb st)). sealed start end_pos walls n"
  using assms by (auto simp: visit_def sealed_def getNeighbors_def)

lemma fold_visit_sealed:
  "\<forall>n \<in> set (queue st). sealed start end_pos walls n \<Longrightarrow>
   set ns \<subseteq> set (getNeighbors (pos current)) \<Longrightarrow>
   end_pos \<notin> set ns \<or> end_pos \<in> walls \<Longrightarrow>
   \<forall>n \<in> set (queue (fold (visit walls current) ns st)). sealed start end_pos walls n"
proof (induction ns arbitrary: st)
  case Nil
  then show ?case by simp
next
  case (Cons a ns)
  have "\<forall>n \<in> set (queue (visit walls current a st)). sealed start end_pos walls n"
    using Cons.prems by (intro visit_sealed) auto
  then show ?case
    using Cons.IH Cons.prems(2,3) by auto
qed

lemma search_sealed:
  "\<forall>n \<in> set (queue st). sealed start end_pos walls n \<Longrightarrow>
   set (getNeighbors end_pos) \<subseteq> walls \<Longrightarrow>
   end_pos \<notin> set (getNeighbors start) \<Longrightarrow>
   search algorithm end_pos walls st cnt = None"
proof (induction algorithm end_pos walls st cnt rule: search.induct)
  case (1 algorithm end_pos walls st cnt)
  show ?case
  proof (cases "sort_key (priority algorithm end_pos) (queue st)")
    case Nil
    then show ?thesis
      by (subst search.simps) simp
  next
    case (Cons current rest)
    have "set (current # rest) = set (queue st)"
      using Cons set_sort[of "priority algorithm end_pos" "queue st"] by simp
    then have cur: "sealed start end_pos walls current"
      and rest: "\<forall>n \<in> set rest. sealed start end_pos walls n"
      using "1.prems"(1) by auto
    have not_end: "\<not> (r (pos current) = r end_pos \<and> c (pos current) = c end_pos)"
      using cur by (auto simp: sealed_def)
    have "end_pos \<notin> set (getNeighbors (pos current)) \<or> end_pos \<in> walls"
    proof (cases "pos current = start")
      case True
      then show ?thesis
        using "1.prems"(3) by simp
    next
      case False
      then have free: "inGrid (pos current)" "pos current \<notin> walls"
        using cur by (auto simp: sealed_def)
      show ?thesis
      proof (rule disjCI)
        assume "end_pos \<notin> walls"
        show "end_pos \<notin> set (getNeighbors (pos current))"
        proof
          assume "end_pos \<in> set (getNeighbors (pos current))"
          then have "pos current \<in> set (getNeighbors end_pos)"
            using free(1) by (rule getNeighbors_sym)
          then show False
            using "1.prems"(2) free(2) by auto
        qed
      qed
    qed
    then have "\<forall>n \<in> set (queue (expand walls current (st\<lparr>queue := rest\<rparr>))). sealed start end_pos walls n"
      unfolding expand_def using rest by (intro fold_visit_sealed) simp_all
    then have "search algorithm end_pos walls (expand walls current (st\<lparr>queue := rest\<rparr>)) (cnt + 1) = None"
      using "1.IH"[OF Cons not_end] "1.prems"(2,3) by simp
    then show ?thesis
      using Cons not_end by (subst search.simps) simp
  qed
qed

lemma enclosed_not_neighbor_of_free_start:
  assumes "set (getNeighbors end_pos) \<subseteq> walls" "inGrid start" "start \<notin> walls"
  shows "end_pos \<notin> set (getNeighbors start)"
  using assms getNeighbors_sym by blast

subsection \<open>Walks, and the shortest path under the uniform-cost strategy\<close>

text \<open>
  One step of a walk goes to an in-grid neighbour that is not a wall; \<open>walkFrom ws p qs\<close>
  says that the cells \<open>qs\<close> are a walk leaving \<open>p\<close>, and \<open>walkEnd p qs\<close> is where it ends.
\<close>

definition stepOK :: "Position set \<Rightarrow> Position \<Rightarrow> Position \<Rightarrow> bool" where
  "stepOK ws p q \<longleftrightarrow> q \<in> set (getNeighbors p) \<and> q \<notin> ws"

fun walkFrom :: "Position set \<Rightarrow> Position \<Rightarrow> Position list \<Rightarrow> bool" where
  "walkFrom ws p [] = True"
| "walkFrom ws p (q # qs) = (stepOK ws p q \<and> walkFrom ws q qs)"

definition walkEnd :: "Position \<Rightarrow> Position list \<Rightarrow> Position" where
  "walkEnd p qs = last (p # qs)"

lemma walkEnd_simps [simp]:
  "walkEnd p [] = p"
  "walkEnd p (q # qs) = walkEnd q qs"
  "walkEnd p (qs @ [x]) = x"
  by (simp_all add: walkEnd_def)

lemma walkFrom_append:
  "walkFrom ws p (qs @ rs) = (walkFrom ws p qs \<and> walkFrom ws (walkEnd p qs) rs)"
  by (induction qs arbitrary: p) simp_all

lemma isGridWalk_walkFrom: "isGridWalk ws (p # qs) \<longleftrightarrow> p \<notin> ws \<and> walkFrom ws p qs"
proof (induction qs arbitrary: p)
  case Nil
  then show ?case by simp
next
  case (Cons q qs)
  then show ?case by (auto simp: stepOK_def)
qed

text \<open>
  A node is sound when its parent chain, read from the root, is a walk from \<open>start\<close> of as
  many steps as its recorded distance.
\<close>

definition nodeWalk :: "Position \<Rightarrow> Position set \<Rightarrow> PathNode \<Rightarrow> bool" where
  "nodeWalk start ws n \<longleftrightarrow>
     (\<exists>qs. rev (chain n) = start # qs \<and> walkFrom ws start qs \<and> int (length qs) = distance n)"

lemma nodeWalk_root: "nodeWalk start ws (PathNode start 0 None)"
  by (simp add: nodeWalk_def)

lemma nodeWalk_child:
  assumes "nodeWalk start ws current" "stepOK ws (pos current) nb"
  shows "nodeWalk start ws (PathNode nb (distance current + 1) (Some current))"
proof -
  obtain qs where qs: "rev (chain current) = start # qs" "walkFrom ws start qs"
    "int (length qs) = distance current"
    using assms(1) by (auto simp: nodeWalk_def)
  have "walkEnd start qs = pos current"
    using qs(1) hd_chain[of current] chain_nonempty[of current]
    unfolding walkEnd_def by (metis last_rev)
  then have "walkFrom ws start (qs @ [nb])"
    using qs(2) assms(2) by (simp add: walkFrom_append)
  moreover have "rev (chain (PathNode nb (distance current + 1) (Some current))) = start # (qs @ [nb])"
    using qs(1) by simp
  moreover have "int (length (qs @ [nb])) = distance current + 1"
    using qs(3) by simp
  ultimately show ?thesis
    unfolding nodeWalk_def by (metis PathNode.sel(2))
qed

lemma distinct_getNeighbors: "distinct (getNeighbors p)"
  unfolding getNeighbors_def dirs_def by (intro distinct_filter) simp

text \<open>The neighbours that one expansion enqueues.\<close>

definition newCells :: "Position set \<Rightarrow> Position set \<Rightarrow> Position list \<Rightarrow> Position list" where
  "newCells ws V ns = filter (\<lambda>nb. nb \<notin> V \<and> nb \<notin> ws) ns"

lemma fold_visit_result:
  "distinct ns \<Longrightarrow>
   queue (fold (visit ws current) ns st)
     = queue st @ map (\<lambda>nb. PathNode nb (distance current + 1) (Some current))
                    (newCells ws (visited st) ns)
   \<and> visited (fold (visit ws current) ns st) = visited st \<union> set (newCells ws (visited st) ns)"
proof (induction ns arbitrary: st)
  case Nil
  then show ?case by (simp add: newCells_def)
next
  case (Cons a ns)
  have same: "newCells ws (insert a V) ns = newCells ws V ns" for V
    using Cons.prems by (auto simp: newCells_def intro: filter_cong)
  have "distinct ns"
    using Cons.prems by simp
  from Cons.IH[OF this, of "visit ws current a st"] show ?case
    using same[of "visited st"] by (auto simp: visit_def newCells_def)
qed

lemma expand_result:
  "queue (expand ws current st)
     = queue st @ map (\<lambda>nb. PathNode nb (distance current + 1) (Some current))
                    (newCells ws (visited st) (getNeighbors (pos current)))"
  "visited (expand ws current st)
     = visited st \<union> set (newCells ws (visited st) (getNeighbors (pos current)))"
  unfolding expand_def by (simp_all add: fold_visit_result distinct_getNeighbors)

text \<open>
  The invariant of the uniform-cost search: the frontier holds sound nodes of visited cells,
  none with a recorded distance above the length of any walk to its cell; it is sorted by
  distance and spans at most two levels; and a visited cell that has left the frontier is
  not the goal and has all its free neighbours visited.
\<close>

definition bfsInv :: "Position \<Rightarrow> Position \<Rightarrow> Position set \<Rightarrow> SearchState \<Rightarrow> bool" where
  "bfsInv start end_pos ws st \<longleftrightarrow>
     start \<in> visited st
     \<and> (\<forall>n \<in> set (queue st). nodeWalk start ws n \<and> pos n \<in> visited st
           \<and> (\<forall>qs. walkFrom ws start qs \<and> walkEnd start qs = pos n \<longrightarrow> distance n \<le> int (length qs)))
     \<and> sorted (map distance (queue st))
     \<and> (\<forall>n \<in> set (queue st). distance n \<le> distance (hd (queue st)) + 1)
     \<and> (\<forall>v \<in> visited st. v \<notin> pos ` set (queue st) \<longrightarrow>
           v \<noteq> end_pos \<and> (\<forall>nb \<in> set (getNeighbors v). nb \<notin> ws \<longrightarrow> nb \<in> visited st))"

lemma bfsInv_init:
  "bfsInv start end_pos ws \<lparr>queue = [PathNode start 0 None], visited = {start}, visitedOrderAcc = [start]\<rparr>"
  by (simp add: bfsInv_def nodeWalk_root)

lemma dijkstra_sorted_queue:
  "sorted (map distance q) \<Longrightarrow> sort_key (priority DIJKSTRA end_pos) q = q"
proof -
  have "priority DIJKSTRA end_pos = distance"
    by (rule ext) simp
  then show "sorted (map distance q) \<Longrightarrow> sort_key (priority DIJKSTRA end_pos) q = q"
    by (simp add: sort_key_id_if_sorted)
qed

lemma no_short_walk:
  assumes inv: "bfsInv start end_pos ws st" and q: "queue st = cur # rest"
    and walk: "walkFrom ws start qs" and out: "walkEnd start qs \<notin> visited st"
  shows "distance cur < int (length qs)"
proof -
  have start_in: "start \<in> visited st"
    using inv by (simp add: bfsInv_def)
  then have "qs \<noteq> []" "last qs \<notin> visited st"
    using out by (auto simp: walkEnd_def split: if_splits)
  then have "\<exists>x \<in> set qs. x \<notin> visited st"
    using last_in_set by blast
  then obtain ys x zs where split: "qs = ys @ x # zs" and x_out: "x \<notin> visited st"
    and ys_in: "\<forall>y \<in> set ys. \<not> y \<notin> visited st"
    using split_list_first_prop[of qs "\<lambda>x. x \<notin> visited st"] by blast
  define y where "y = walkEnd start ys"
  have y_in: "y \<in> visited st"
    using start_in ys_in by (cases "ys = []") (auto simp: y_def walkEnd_def)
  have walk_ys: "walkFrom ws start ys" and step: "stepOK ws y x"
    using walk unfolding split y_def by (simp_all add: walkFrom_append)
  show ?thesis
  proof (cases "y \<in> pos ` set (queue st)")
    case True
    then obtain n where n: "n \<in> set (queue st)" "pos n = y"
      by auto
    have "distance n \<le> int (length ys)"
      using inv n walk_ys by (auto simp: bfsInv_def y_def)
    moreover have "distance cur \<le> distance n"
      using inv n(1) q by (auto simp: bfsInv_def)
    ultimately show ?thesis
      by (simp add: split)
  next
    case False
    then have "\<forall>nb \<in> set (getNeighbors y). nb \<notin> ws \<longrightarrow> nb \<in> visited st"
      using inv y_in by (simp add: bfsInv_def)
    then have "x \<in> visited st"
      using step by (simp add: stepOK_def)
    then show ?thesis
      using x_out by simp
  qed
qed

lemma bfsInv_step:
  assumes inv: "bfsInv start end_pos ws st" and q: "queue st = cur # rest"
    and ne: "pos cur \<noteq> end_pos"
  shows "bfsInv start end_pos ws (expand ws cur (st\<lparr>queue := rest\<rparr>))"
proof -
  define V where "V = visited st"
  define news where "news = newCells ws V (getNeighbors (pos cur))"
  define mk where "mk = (\<lambda>nb. PathNode nb (distance cur + 1) (Some cur))"
  define st' where "st' = expand ws cur (st\<lparr>queue := rest\<rparr>)"
  have queue': "queue st' = rest @ map mk news"
    and visited': "visited st' = V \<union> set news"
    unfolding st'_def news_def mk_def V_def by (simp_all add: expand_result)
  have news_facts: "nb \<in> set (getNeighbors (pos cur)) \<and> nb \<notin> V \<and> nb \<notin> ws" if "nb \<in> set news" for nb
    using that by (simp add: news_def newCells_def)
  have start_in: "start \<in> V"
    using inv by (simp add: bfsInv_def V_def)
  have old: "nodeWalk start ws n \<and> pos n \<in> V
       \<and> (\<forall>qs. walkFrom ws start qs \<and> walkEnd start qs = pos n \<longrightarrow> distance n \<le> int (length qs))"
    if "n \<in> set (cur # rest)" for n
  proof -
    have "n \<in> set (queue st)"
      using that q by simp
    then show ?thesis
      using inv unfolding bfsInv_def V_def by blast
  qed
  have sorted_old: "sorted (map distance (cur # rest))"
    and range_old: "\<forall>n \<in> set (cur # rest). distance n \<le> distance cur + 1"
    using inv q by (simp_all add: bfsInv_def)
  have closed_old: "v \<noteq> end_pos \<and> (\<forall>nb \<in> set (getNeighbors v). nb \<notin> ws \<longrightarrow> nb \<in> V)"
    if "v \<in> V" "v \<notin> pos ` set (cur # rest)" for v
  proof -
    have "v \<in> visited st" "v \<notin> pos ` set (queue st)"
      using that q by (simp_all add: V_def)
    then show ?thesis
      using inv unfolding bfsInv_def V_def by blast
  qed
  have low: "distance cur \<le> distance n" if "n \<in> set rest" for n
    using sorted_old that by auto
  have new_node: "nodeWalk start ws (mk nb) \<and> pos (mk nb) \<in> V \<union> set news
       \<and> (\<forall>qs. walkFrom ws start qs \<and> walkEnd start qs = pos (mk nb) \<longrightarrow> distance (mk nb) \<le> int (length qs))"
    if nb: "nb \<in> set news" for nb
  proof -
    have "stepOK ws (pos cur) nb"
      using news_facts[OF nb] by (simp add: stepOK_def)
    then have "nodeWalk start ws (mk nb)"
      unfolding mk_def using old[of cur] by (intro nodeWalk_child) simp_all
    moreover have "distance (mk nb) \<le> int (length qs)"
      if "walkFrom ws start qs" "walkEnd start qs = pos (mk nb)" for qs
    proof -
      have "walkEnd start qs \<notin> visited st"
        using that(2) news_facts[OF nb] by (simp add: V_def mk_def)
      then have "distance cur < int (length qs)"
        using no_short_walk[OF inv q that(1)] by simp
      then show ?thesis
        by (simp add: mk_def)
    qed
    moreover have "pos (mk nb) \<in> V \<union> set news"
      using nb by (simp add: mk_def)
    ultimately show ?thesis
      by blast
  qed
  have part_nodes: "\<forall>n \<in> set (queue st'). nodeWalk start ws n \<and> pos n \<in> visited st'
       \<and> (\<forall>qs. walkFrom ws start qs \<and> walkEnd start qs = pos n \<longrightarrow> distance n \<le> int (length qs))"
    unfolding queue' visited' using old new_node by auto
  have new_dist: "map distance (map mk news) = replicate (length news) (distance cur + 1)"
    by (simp add: mk_def comp_def map_replicate_const)
  have part_sorted: "sorted (map distance (queue st'))"
    unfolding queue' using sorted_old range_old
    by (auto simp: sorted_append new_dist simp del: map_map)
  have part_range: "\<forall>n \<in> set (queue st'). distance n \<le> distance (hd (queue st')) + 1"
  proof
    fix n
    assume n: "n \<in> set (queue st')"
    then have nonempty: "queue st' \<noteq> []"
      by auto
    have upper: "distance n \<le> distance cur + 1"
      using n range_old unfolding queue' by (auto simp: mk_def)
    have "hd (queue st') \<in> set (queue st')"
      using nonempty by simp
    then have "distance cur \<le> distance (hd (queue st'))"
      unfolding queue' using low by (auto simp: mk_def)
    then show "distance n \<le> distance (hd (queue st')) + 1"
      using upper by simp
  qed
  have part_closed: "\<forall>v \<in> visited st'. v \<notin> pos ` set (queue st') \<longrightarrow>
       v \<noteq> end_pos \<and> (\<forall>nb \<in> set (getNeighbors v). nb \<notin> ws \<longrightarrow> nb \<in> visited st')"
  proof (intro ballI impI)
    fix v
    assume v: "v \<in> visited st'" and gone: "v \<notin> pos ` set (queue st')"
    have not_new: "v \<notin> set news"
    proof
      assume "v \<in> set news"
      then have "mk v \<in> set (queue st')"
        by (simp add: queue')
      then have "pos (mk v) \<in> pos ` set (queue st')"
        by (rule imageI)
      then show False
        using gone by (simp add: mk_def)
    qed
    then have v_old: "v \<in> V"
      using v by (simp add: visited')
    have not_rest: "v \<notin> pos ` set rest"
      using gone by (auto simp: queue')
    show "v \<noteq> end_pos \<and> (\<forall>nb \<in> set (getNeighbors v). nb \<notin> ws \<longrightarrow> nb \<in> visited st')"
    proof (cases "v = pos cur")
      case True
      have "nb \<in> V \<union> set news" if "nb \<in> set (getNeighbors (pos cur))" "nb \<notin> ws" for nb
        using that by (cases "nb \<in> V") (simp_all add: news_def newCells_def)
      then show ?thesis
        using True ne by (simp add: visited')
    next
      case False
      then have "v \<notin> pos ` set (cur # rest)"
        using not_rest by simp
      then show ?thesis
        using closed_old[OF v_old] by (simp add: visited')
    qed
  qed
  have "start \<in> visited st'"
    using start_in by (simp add: visited')
  then show ?thesis
    using part_nodes part_sorted part_range part_closed
    unfolding bfsInv_def st'_def[symmetric] by simp
qed

lemma walk_stays_visited:
  assumes closed: "\<forall>v \<in> V. \<forall>nb \<in> set (getNeighbors v). nb \<notin> ws \<longrightarrow> nb \<in> V"
  shows "walkFrom ws p qs \<Longrightarrow> p \<in> V \<Longrightarrow> walkEnd p qs \<in> V"
proof (induction qs arbitrary: p)
  case Nil
  then show ?case by simp
next
  case (Cons q qs)
  then have "q \<in> V"
    using closed by (auto simp: stepOK_def)
  then show ?case
    using Cons by simp
qed

lemma search_dijkstra:
  "algorithm = DIJKSTRA \<Longrightarrow> bfsInv start end_pos ws st \<Longrightarrow>
   (case search algorithm end_pos ws st cnt of
      Some res \<Rightarrow>
        (\<exists>n. nodeWalk start ws n \<and> pos n = end_pos \<and> path res = rev (chain n)
           \<and> (\<forall>qs. walkFrom ws start qs \<and> walkEnd start qs = end_pos \<longrightarrow> distance n \<le> int (length qs)))
    | None \<Rightarrow> (\<forall>qs. walkFrom ws start qs \<longrightarrow> walkEnd start qs \<noteq> end_pos))"
proof (induction algorithm end_pos ws st cnt rule: search.induct)
  case (1 algorithm end_pos ws st cnt)
  have sorted_q: "sort_key (priority algorithm end_pos) (queue st) = queue st"
    using "1.prems" by (simp add: dijkstra_sorted_queue bfsInv_def)
  show ?case
  proof (cases "queue st")
    case Nil
    have none: "search algorithm end_pos ws st cnt = None"
      using Nil sorted_q by (subst search.simps) simp
    have closed: "\<forall>v \<in> visited st. \<forall>nb \<in> set (getNeighbors v). nb \<notin> ws \<longrightarrow> nb \<in> visited st"
      and not_goal: "\<forall>v \<in> visited st. v \<noteq> end_pos"
      and start_in: "start \<in> visited st"
      using "1.prems"(2) Nil by (simp_all add: bfsInv_def)
    have "walkEnd start qs \<noteq> end_pos" if "walkFrom ws start qs" for qs
      using walk_stays_visited[OF closed that start_in] not_goal by blast
    then show ?thesis
      by (simp add: none)
  next
    case (Cons cur rest)
    have sorted_eq: "sort_key (priority algorithm end_pos) (queue st) = cur # rest"
      using sorted_q Cons by simp
    show ?thesis
    proof (cases "r (pos cur) = r end_pos \<and> c (pos cur) = c end_pos")
      case True
      then have at_goal: "pos cur = end_pos"
        by simp
      have res: "search algorithm end_pos ws st cnt
          = Some \<lparr>path = rev (chain cur), visitedCount = cnt + 1, visitedOrder = visitedOrderAcc st\<rparr>"
        using sorted_eq True by (subst search.simps) simp
      have "cur \<in> set (queue st)"
        using Cons by simp
      then have "nodeWalk start ws cur
          \<and> (\<forall>qs. walkFrom ws start qs \<and> walkEnd start qs = pos cur \<longrightarrow> distance cur \<le> int (length qs))"
        using "1.prems"(2) unfolding bfsInv_def by blast
      then show ?thesis
        using at_goal unfolding res by auto
    next
      case False
      then have ne: "pos cur \<noteq> end_pos"
        by (metis)
      have step: "search algorithm end_pos ws st cnt
          = search algorithm end_pos ws (expand ws cur (st\<lparr>queue := rest\<rparr>)) (cnt + 1)"
        by (subst search.simps) (simp only: sorted_eq list.case if_not_P[OF False])
      have "bfsInv start end_pos ws (expand ws cur (st\<lparr>queue := rest\<rparr>))"
        using "1.prems"(2) Cons ne by (rule bfsInv_step)
      then show ?thesis
        using "1.IH"[OF sorted_eq False "1.prems"(1)] unfolding step by simp
    qed
  qed
qed

lemma findPath_dijkstra_shortest:
  assumes walk: "isGridWalk ws (start # qs)" and goal: "last (start # qs) = end_pos"
  shows "\<exists>res. findPath start end_pos ws DIJKSTRA = Some res
           \<and> isGridWalk ws (path res) \<and> hd (path res) = start \<and> last (path res) = end_pos
           \<and> length (path res) \<le> length (start # qs)"
proof -
  have free: "start \<notin> ws" and wf: "walkFrom ws start qs"
    using walk by (simp_all add: isGridWalk_walkFrom)
  have reach: "walkEnd start qs = end_pos"
    using goal by (simp add: walkEnd_def)
  have inv: "bfsInv start end_pos ws
      \<lparr>queue = [PathNode start 0 None], visited = {start}, visitedOrderAcc = [start]\<rparr>"
    by (rule bfsInv_init)
  have out: "case findPath start end_pos ws DIJKSTRA of
      Some res \<Rightarrow>
        (\<exists>n. nodeWalk start ws n \<and> pos n = end_pos \<and> path res = rev (chain n)
           \<and> (\<forall>qs. walkFrom ws start qs \<and> walkEnd start qs = end_pos \<longrightarrow> distance n \<le> int (length qs)))
    | None \<Rightarrow> (\<forall>qs. walkFrom ws start qs \<longrightarrow> walkEnd start qs \<noteq> end_pos)"
    unfolding findPath_def using search_dijkstra[OF refl inv] .
  show ?thesis
  proof (cases "findPath start end_pos ws DIJKSTRA")
    case None
    then show ?thesis
      using out wf reach by simp
  next
    case (Some res)
    then obtain n where n: "nodeWalk start ws n" "pos n = end_pos" "path res = rev (chain n)"
      and least: "distance n \<le> int (length qs)"
      using out wf reach by auto
    obtain ps where ps: "rev (chain n) = start # ps" "walkFrom ws start ps" "int (length ps) = distance n"
      using n(1) by (auto simp: nodeWalk_def)
    have "isGridWalk ws (path res)"
      using ps free by (simp add: n(3) isGridWalk_walkFrom)
    moreover have "hd (path res) = start"
      using ps by (simp add: n(3))
    moreover have "last (path res) = end_pos"
      using n(2) hd_chain[of n] chain_nonempty[of n] by (simp add: n(3) last_rev)
    moreover have "length (path res) \<le> length (start # qs)"
      using ps least by (simp add: n(3))
    ultimately show ?thesis
      using Some by simp
  qed
qed

lemma search_returns_walk:
  "search algorithm end_pos ws st cnt = Some res \<Longrightarrow>
   \<forall>n \<in> set (queue st). nodeWalk start ws n \<Longrightarrow>
   \<exists>n. nodeWalk start ws n \<and> path res = rev (chain n)"
proof (induction algorithm end_pos ws st cnt rule: search.induct)
  case (1 algorithm end_pos ws st cnt)
  show ?case
  proof (cases "sort_key (priority algorithm end_pos) (queue st)")
    case Nil
    then show ?thesis
      using "1.prems"(1) by (subst (asm) search.simps) simp
  next
    case (Cons current rest)
    have "set (current # rest) = set (queue st)"
      using Cons set_sort[of "priority algorithm end_pos" "queue st"] by simp
    then have cur: "nodeWalk start ws current" and rest: "\<forall>n \<in> set rest. nodeWalk start ws n"
      using "1.prems"(2) by auto
    show ?thesis
    proof (cases "r (pos current) = r end_pos \<and> c (pos current) = c end_pos")
      case True
      have "path res = rev (chain current)"
        using "1.prems"(1) Cons True by (subst (asm) search.simps) auto
      then show ?thesis
        using cur by blast
    next
      case False
      have step: "search algorithm end_pos ws (expand ws current (st\<lparr>queue := rest\<rparr>)) (cnt + 1) = Some res"
        using "1.prems"(1) Cons False by (subst (asm) search.simps) simp
      have "nodeWalk start ws (PathNode nb (distance current + 1) (Some current))"
        if "nb \<in> set (newCells ws (visited st) (getNeighbors (pos current)))" for nb
        using that cur by (intro nodeWalk_child) (simp_all add: newCells_def stepOK_def)
      then have "\<forall>n \<in> set (queue (expand ws current (st\<lparr>queue := rest\<rparr>))). nodeWalk start ws n"
        using rest by (auto simp: expand_result)
      then show ?thesis
        using "1.IH"[OF Cons False step] by simp
    qed
  qed
qed

lemma findPath_returns_walk:
  assumes "findPath start end_pos ws algorithm = Some res" "start \<notin> ws"
  shows "isGridWalk ws (path res)"
proof -
  have "\<forall>n \<in> set (queue \<lparr>queue = [PathNode start 0 None], visited = {start}, visitedOrderAcc = [start]\<rparr>).
          nodeWalk start ws n"
    by (simp add: nodeWalk_root)
  then obtain n where n: "nodeWalk start ws n" "path res = rev (chain n)"
    using assms(1) search_returns_walk unfolding findPath_def by blast
  then show ?thesis
    using assms(2) by (auto simp: nodeWalk_def isGridWalk_walkFrom)
qed

subsection \<open>Claims about the pathfinder\<close>

text \<open>
  C1 (the A* half fails on the code).  The claim: on every wall configuration with the goal
  reachable, the DIJKSTRA and the ASTAR strategy both return a path with the least number of
  hops.  \<open>findPath\<close> marks a cell visited when it is first enqueued and never lowers a
  recorded distance, so under ASTAR a cell can be fixed with a distance that is not its
  least one.  From (0,1) to (4,4) around the seven walls below there is a walk of 9 hops,
  which DIJKSTRA returns, while ASTAR returns a walk of 11 hops.  The other two parts of
  the claim hold: \<open>findPath_dijkstra_shortest\<close> for DIJKSTRA, and
  \<open>findPath_returns_walk\<close> for the path of any strategy, GREEDY included.
\<close>

theorem findPath_astar_not_shortest:
  "isGridWalk (wallsOf [(0, 4), (1, 1), (1, 3), (2, 4), (3, 1), (3, 2), (3, 3)])
     (cellsOf [(0, 1), (0, 0), (1, 0), (2, 0), (3, 0), (4, 0), (4, 1), (4, 2), (4, 3), (4, 4)])
   \<and> map_option path
        (findPath \<lparr>r = 0, c = 1\<rparr> \<lparr>r = 4, c = 4\<rparr>
           (wallsOf [(0, 4), (1, 1), (1, 3), (2, 4), (3, 1), (3, 2), (3, 3)]) DIJKSTRA)
       = Some (cellsOf [(0, 1), (0, 0), (1, 0), (2, 0), (3, 0), (4, 0), (4, 1), (4, 2), (4, 3), (4, 4)])
   \<and> map_option path
        (findPath \<lparr>r = 0, c = 1\<rparr> \<lparr>r = 4, c = 4\<rparr>
           (wallsOf [(0, 4), (1, 1), (1, 3), (2, 4), (3, 1), (3, 2), (3, 3)]) ASTAR)
       = Some (cellsOf [(0, 1), (0, 2), (1, 2), (2, 2), (2, 1), (2, 0), (3, 0), (4, 0), (4, 1),
                        (4, 2), (4, 3), (4, 4)])"
  by code_simp

text \<open>
  C3 as stated fails: \<open>start\<close> is never tested against the wall set, so a search that
  starts on a wall returns a path through that wall.
\<close>

theorem findPath_wall_start_counterexample:
  "map_option path (findPath \<lparr>r = 0, c = 0\<rparr> \<lparr>r = 0, c = 1\<rparr> {\<lparr>r = 0, c = 0\<rparr>} DIJKSTRA)
     = Some [\<lparr>r = 0, c = 0\<rparr>, \<lparr>r = 0, c = 1\<rparr>]
   \<and> \<lparr>r = 0, c = 0\<rparr> \<in> set [\<lparr>r = 0, c = 0\<rparr>, \<lparr>r = 0, c = 1\<rparr>] \<inter> {\<lparr>r = 0, c = 0\<rparr>}"
  by code_simp

text \<open>
  C3 (amended).  For every returned result, under any strategy, the path begins with
  \<open>start\<close> and no later cell of the path is a member of the wall set; so when \<open>start\<close>
  itself is not a wall, no cell of the path is.
\<close>

theorem findPath_no_wall_after_start:
  assumes "findPath start end_pos walls algorithm = Some res"
  shows "hd (path res) = start \<and> set (tl (path res)) \<inter> walls = {}
         \<and> (start \<notin> walls \<longrightarrow> set (path res) \<inter> walls = {})"
proof -
  obtain n where n: "nodeOK start walls n" "path res = rev (chain n)"
    using findPath_returns_node[OF assms] by blast
  have first: "hd (path res) = last (chain n)"
    using n(2) chain_nonempty by (simp add: hd_rev)
  have later: "tl (path res) = rev (butlast (chain n))"
    using n(2) butlast_rev[of "rev (chain n)"] by (simp add: rev_swap)
  have "path res \<noteq> []"
    using n(2) chain_nonempty by simp
  then have "set (path res) = insert (hd (path res)) (set (tl (path res)))"
    by (cases "path res") simp_all
  then show ?thesis
    using n(1) first later by (auto simp: nodeOK_def)
qed

theorem findPath_no_wall_after_start_witness:
  "hd (path (the (findPath \<lparr>r = 0, c = 1\<rparr> \<lparr>r = 2, c = 1\<rparr> (wallsOf [(1, 1)]) GREEDY)))
     = \<lparr>r = 0, c = 1\<rparr>
   \<and> set (path (the (findPath \<lparr>r = 0, c = 1\<rparr> \<lparr>r = 2, c = 1\<rparr> (wallsOf [(1, 1)]) GREEDY)))
       \<inter> wallsOf [(1, 1)] = {}"
proof -
  have run: "findPath \<lparr>r = 0, c = 1\<rparr> \<lparr>r = 2, c = 1\<rparr> (wallsOf [(1, 1)]) GREEDY
    = Some (the (findPath \<lparr>r = 0, c = 1\<rparr> \<lparr>r = 2, c = 1\<rparr> (wallsOf [(1, 1)]) GREEDY))"
    by code_simp
  have free: "\<lparr>r = 0, c = 1\<rparr> \<notin> wallsOf [(1, 1)]"
    by (simp add: wallsOf_def)
  show ?thesis
    using findPath_no_wall_after_start[OF run] free by simp
qed

text \<open>
  C6 as stated fails when \<open>start\<close> is itself one of the walls that enclose the goal: the
  first expansion steps from the wall cell \<open>start\<close> straight onto the goal.
\<close>

theorem findPath_enclosed_end_counterexample:
  "\<lparr>r = 0, c = 1\<rparr> \<noteq> \<lparr>r = 0, c = 0\<rparr>
   \<and> set (getNeighbors \<lparr>r = 0, c = 0\<rparr>) \<subseteq> wallsOf [(0, 1), (1, 0)]
   \<and> map_option path (findPath \<lparr>r = 0, c = 1\<rparr> \<lparr>r = 0, c = 0\<rparr> (wallsOf [(0, 1), (1, 0)]) DIJKSTRA)
       = Some [\<lparr>r = 0, c = 1\<rparr>, \<lparr>r = 0, c = 0\<rparr>]
   \<and> map_option path (findPath \<lparr>r = 0, c = 1\<rparr> \<lparr>r = 0, c = 0\<rparr> (wallsOf [(0, 1), (1, 0)]) GREEDY)
       = Some [\<lparr>r = 0, c = 1\<rparr>, \<lparr>r = 0, c = 0\<rparr>]
   \<and> map_option path (findPath \<lparr>r = 0, c = 1\<rparr> \<lparr>r = 0, c = 0\<rparr> (wallsOf [(0, 1), (1, 0)]) ASTAR)
       = Some [\<lparr>r = 0, c = 1\<rparr>, \<lparr>r = 0, c = 0\<rparr>]"
  by code_simp

text \<open>
  C6 (amended).  If the goal is distinct from \<open>start\<close>, every in-grid 4-neighbour of the
  goal is a wall, and the goal is not among the neighbours that \<open>getNeighbors\<close> gives for
  \<open>start\<close> (as is the case whenever \<open>start\<close> is a grid cell that is not a wall, by
  \<open>enclosed_not_neighbor_of_free_start\<close>), then \<open>findPath\<close> returns no result, whatever
  the strategy.
\<close>

theorem findPath_enclosed_end:
  assumes "start \<noteq> end_pos" "set (getNeighbors end_pos) \<subseteq> walls"
    and "end_pos \<notin> set (getNeighbors start)"
  shows "findPath start end_pos walls algorithm = None"
  unfolding findPath_def using assms
  by (intro search_sealed[where start = start]) (simp_all add: sealed_def)

theorem findPath_enclosed_end_witness:
  "findPath \<lparr>r = 2, c = 2\<rparr> \<lparr>r = 0, c = 0\<rparr> (wallsOf [(0, 1), (1, 0)]) DIJKSTRA = None
   \<and> findPath \<lparr>r = 2, c = 2\<rparr> \<lparr>r = 0, c = 0\<rparr> (wallsOf [(0, 1), (1, 0)]) GREEDY = None
   \<and> findPath \<lparr>r = 2, c = 2\<rparr> \<lparr>r = 0, c = 0\<rparr> (wallsOf [(0, 1), (1, 0)]) ASTAR = None"
proof -
  have distinct: "\<lparr>r = 2, c = 2\<rparr> \<noteq> \<lparr>r = 0, c = (0::int)\<rparr>"
    by simp
  have enclosed: "set (getNeighbors \<lparr>r = 0, c = 0\<rparr>) \<subseteq> wallsOf [(0, 1), (1, 0)]"
    by code_simp
  have apart: "\<lparr>r = 0, c = 0\<rparr> \<notin> set (getNeighbors \<lparr>r = 2, c = 2\<rparr>)"
    by code_simp
  show ?thesis
    using findPath_enclosed_end[OF distinct enclosed apart] by simp
qed

text \<open>
  C10.  A search from a cell to itself returns the one-cell path, under every strategy and
  whether or not the cell is a wall; and every returned path begins with \<open>start\<close> and ends
  with the goal.
\<close>

theorem findPath_same_cell_and_endpoints:
  "map_option path (findPath p p walls algorithm) = Some [p]
   \<and> (findPath start end_pos walls algorithm = Some res \<longrightarrow>
        path res \<noteq> [] \<and> hd (path res) = start \<and> last (path res) = end_pos)"
proof
  show "map_option path (findPath p p walls algorithm) = Some [p]"
    unfolding findPath_def by (subst search.simps) simp
next
  show "findPath start end_pos walls algorithm = Some res \<longrightarrow>
        path res \<noteq> [] \<and> hd (path res) = start \<and> last (path res) = end_pos"
  proof
    assume found: "findPath start end_pos walls algorithm = Some res"
    obtain n where n: "nodeOK start walls n" "pos n = end_pos" "path res = rev (chain n)"
      using findPath_returns_node[OF found] by blast
    show "path res \<noteq> [] \<and> hd (path res) = start \<and> last (path res) = end_pos"
      using n chain_nonempty[of n] hd_chain[of n] by (simp add: nodeOK_def hd_rev last_rev)
  qed
qed

theorem findPath_same_cell_and_endpoints_witness:
  "map_option path (findPath \<lparr>r = 3, c = 3\<rparr> \<lparr>r = 3, c = 3\<rparr> {\<lparr>r = 3, c = 3\<rparr>} ASTAR)
     = Some [\<lparr>r = 3, c = 3\<rparr>]
   \<and> hd (path (the (findPath \<lparr>r = 0, c = 1\<rparr> \<lparr>r = 2, c = 1\<rparr> {\<lparr>r = 3, c = 3\<rparr>} ASTAR)))
       = \<lparr>r = 0, c = 1\<rparr>
   \<and> last (path (the (findPath \<lparr>r = 0, c = 1\<rparr> \<lparr>r = 2, c = 1\<rparr> {\<lparr>r = 3, c = 3\<rparr>} ASTAR)))
       = \<lparr>r = 2, c = 1\<rparr>"
proof -
  have run: "findPath \<lparr>r = 0, c = 1\<rparr> \<lparr>r = 2, c = 1\<rparr> {\<lparr>r = 3, c = 3\<rparr>} ASTAR
    = Some (the (findPath \<lparr>r = 0, c = 1\<rparr> \<lparr>r = 2, c = 1\<rparr> {\<lparr>r = 3, c = 3\<rparr>} ASTAR))"
    by code_simp
  then show ?thesis
    using findPath_same_cell_and_endpoints[where p = "\<lparr>r = 3, c = 3\<rparr>"
        and walls = "{\<lparr>r = 3, c = 3\<rparr>}" and algorithm = ASTAR
        and start = "\<lparr>r = 0, c = 1\<rparr>" and end_pos = "\<lparr>r = 2, c = 1\<rparr>"
        and res = "the (findPath \<lparr>r = 0, c = 1\<rparr> \<lparr>r = 2, c = 1\<rparr> {\<lparr>r = 3, c = 3\<rparr>} ASTAR)"]
    by simp
qed

section \<open>Route optimizer (utils/algorithms.ts, solveTSP)\<close>

datatype TSPMethod = TSP_NAIVE | TSP_GREEDY | TSP_OPTIMAL

text \<open>
  The GREEDY branch: sort the unvisited points by distance from the current one (stable),
  take the first, repeat.
\<close>

function greedyTour :: "Position \<Rightarrow> Position list \<Rightarrow> Position list \<Rightarrow> Position list" where
  "greedyTour current unvisited result =
     (case sort_key (getManhattanDistance current) unvisited of
        [] \<Rightarrow> result
      | next # rest \<Rightarrow> greedyTour next rest (result @ [next]))"
  by pat_completeness auto
termination
proof (relation "measure (\<lambda>(current, unvisited, result). length unvisited)")
  show "wf (measure (\<lambda>(current, unvisited, result). length unvisited))"
    by simp
next
  fix current :: Position and unvisited result :: "Position list" and nxt :: Position
    and rest :: "Position list"
  assume "sort_key (getManhattanDistance current) unvisited = nxt # rest"
  then have "length unvisited = length (nxt # rest)"
    using length_sort[of "getManhattanDistance current" unvisited] by simp
  then show "((nxt, rest, result @ [nxt]), (current, unvisited, result))
             \<in> measure (\<lambda>(current, unvisited, result). length unvisited)"
    by simp
qed

text \<open>
  The OPTIMAL branch keeps two mutable locals; \<open>minDist\<close> starts as \<open>Infinity\<close>, which
  is \<open>None\<close> here.
\<close>

record TSPState =
  minDist :: "int option"
  bestPath :: "Position list"

text \<open>The inner \<open>for (const p of m)\<close> loop that adds up the legs of a tour.\<close>

definition tourDist :: "Position \<Rightarrow> Position list \<Rightarrow> int" where
  "tourDist start m = fst (fold (\<lambda>p (d, curr). (d + getManhattanDistance curr p, p)) m (0, start))"

text \<open>\<open>d < minDist\<close>, where every number is below \<open>Infinity\<close>.\<close>

definition belowMin :: "int \<Rightarrow> int option \<Rightarrow> bool" where
  "belowMin d best = (case best of None \<Rightarrow> True | Some b \<Rightarrow> d < b)"

text \<open>
  \<open>permute(arr, m)\<close>: \<open>curr.splice(i, 1)\<close> removes index \<open>i\<close> from a copy of \<open>arr\<close> and
  returns the removed element, which is appended to \<open>m\<close>.
\<close>

function permute :: "Position \<Rightarrow> Position list \<Rightarrow> Position list \<Rightarrow> TSPState \<Rightarrow> TSPState" where
  "permute start arr m st =
     (if length arr = 0
      then (let d = tourDist start m
            in if belowMin d (minDist st) then \<lparr>minDist = Some d, bestPath = m\<rparr> else st)
      else fold (\<lambda>i st'. permute start (take i arr @ drop (Suc i) arr) (m @ [arr ! i]) st')
             [0..<length arr] st)"
  by pat_completeness auto
termination
  by (relation "measure (\<lambda>(start, arr, m, st). length arr)") auto

definition solveTSP :: "Position \<Rightarrow> Position list \<Rightarrow> TSPMethod \<Rightarrow> Position list" where
  "solveTSP start points method =
     (case method of
        TSP_NAIVE \<Rightarrow> points
      | TSP_GREEDY \<Rightarrow> greedyTour start points []
      | TSP_OPTIMAL \<Rightarrow> bestPath (permute start points [] \<lparr>minDist = None, bestPath = []\<rparr>))"


text \<open>The cost of a tour: from \<open>start\<close> through the points in the given order.\<close>

fun tourCost :: "Position \<Rightarrow> Position list \<Rightarrow> int" where
  "tourCost start [] = 0"
| "tourCost start (p # ps) = getManhattanDistance start p + tourCost p ps"

lemma fold_tourDist:
  "fold (\<lambda>p (d, curr). (d + getManhattanDistance curr p, p)) m (d0, s)
     = (d0 + tourCost s m, last (s # m))"
  by (induction m arbitrary: d0 s) simp_all

lemma tourDist_tourCost: "tourDist start m = tourCost start m"
  by (simp add: tourDist_def fold_tourDist)

definition leMin :: "int option \<Rightarrow> int \<Rightarrow> bool" where
  "leMin best v \<longleftrightarrow> (\<exists>b. best = Some b \<and> b \<le> v)"

text \<open>
  \<open>covers start T st st'\<close>: going from \<open>st\<close> to \<open>st'\<close> the recorded minimum only went
  down, it is now at most the cost of every tour in \<open>T\<close>, and if the state changed at all
  it records a tour of \<open>T\<close> together with its cost.
\<close>

definition covers :: "Position \<Rightarrow> Position list set \<Rightarrow> TSPState \<Rightarrow> TSPState \<Rightarrow> bool" where
  "covers start T st st' \<longleftrightarrow>
     (\<forall>v. leMin (minDist st) v \<longrightarrow> leMin (minDist st') v) \<and>
     (\<forall>t \<in> T. leMin (minDist st') (tourCost start t)) \<and>
     (st' = st \<or> (bestPath st' \<in> T \<and> minDist st' = Some (tourCost start (bestPath st'))))"

lemma covers_empty: "covers start {} st st"
  by (simp add: covers_def)

lemma covers_trans:
  assumes "covers start T1 st st1" "covers start T2 st1 st2"
  shows "covers start (T1 \<union> T2) st st2"
  using assms unfolding covers_def by blast

lemma covers_leaf:
  "covers start {m} st
     (let d = tourDist start m
      in if belowMin d (minDist st) then \<lparr>minDist = Some d, bestPath = m\<rparr> else st)"
  by (cases "minDist st") (auto simp: covers_def leMin_def belowMin_def tourDist_tourCost Let_def)

lemma covers_fold:
  assumes "\<And>i s. i \<in> set js \<Longrightarrow> covers start (T i) s (f i s)"
  shows "covers start (\<Union>i \<in> set js. T i) st (fold f js st)"
  using assms
proof (induction js arbitrary: st)
  case Nil
  then show ?case by (simp add: covers_empty)
next
  case (Cons j js)
  have first: "covers start (T j) st (f j st)"
    using Cons.prems by simp
  have rest: "covers start (\<Union>i \<in> set js. T i) (f j st) (fold f js (f j st))"
    using Cons.prems by (intro Cons.IH) simp
  show ?case
    using covers_trans[OF first rest] by simp
qed

definition toursFrom :: "Position list \<Rightarrow> Position list \<Rightarrow> Position list set" where
  "toursFrom m arr = {m @ qs | qs. mset qs = mset arr}"

lemma mset_remove_nth:
  assumes "i < length arr"
  shows "add_mset (arr ! i) (mset (take i arr @ drop (Suc i) arr)) = mset arr"
proof -
  have "arr = take i arr @ arr ! i # drop (Suc i) arr"
    using assms by (rule id_take_nth_drop)
  then have "mset arr = mset (take i arr @ arr ! i # drop (Suc i) arr)"
    by simp
  then show ?thesis
    by simp
qed

lemma toursFrom_split:
  assumes "arr \<noteq> []"
  shows "toursFrom m arr
         = (\<Union>i \<in> set [0..<length arr]. toursFrom (m @ [arr ! i]) (take i arr @ drop (Suc i) arr))"
proof (intro set_eqI iffI)
  fix t
  assume "t \<in> toursFrom m arr"
  then obtain qs where qs: "t = m @ qs" "mset qs = mset arr"
    by (auto simp: toursFrom_def)
  then have "qs \<noteq> []"
    using assms by auto
  then obtain q qs' where split: "qs = q # qs'"
    by (cases qs) auto
  then have "q \<in> set arr"
    using qs(2) by (metis list.set_intros(1) mset_eq_setD)
  then obtain i where i: "i < length arr" "arr ! i = q"
    by (auto simp: in_set_conv_nth)
  have "add_mset q (mset qs') = add_mset q (mset (take i arr @ drop (Suc i) arr))"
    using qs(2) split mset_remove_nth[OF i(1)] i(2) by simp
  then have "mset qs' = mset (take i arr @ drop (Suc i) arr)"
    by simp
  then have "t \<in> toursFrom (m @ [arr ! i]) (take i arr @ drop (Suc i) arr)"
    using qs(1) split i(2) by (auto simp: toursFrom_def)
  then show "t \<in> (\<Union>i \<in> set [0..<length arr]. toursFrom (m @ [arr ! i]) (take i arr @ drop (Suc i) arr))"
    using i(1) by auto
next
  fix t
  assume "t \<in> (\<Union>i \<in> set [0..<length arr]. toursFrom (m @ [arr ! i]) (take i arr @ drop (Suc i) arr))"
  then obtain i qs where i: "i < length arr" and t: "t = (m @ [arr ! i]) @ qs"
    and qs: "mset qs = mset (take i arr @ drop (Suc i) arr)"
    by (auto simp: toursFrom_def)
  have "mset (arr ! i # qs) = mset arr"
    using qs mset_remove_nth[OF i] by simp
  then show "t \<in> toursFrom m arr"
    using t unfolding toursFrom_def by (intro CollectI exI[of _ "arr ! i # qs"]) simp
qed

lemma permute_covers:
  "covers start (toursFrom m arr) st (permute start arr m st)"
proof (induction start arr m st rule: permute.induct)
  case (1 start arr m st)
  show ?case
  proof (cases "length arr = 0")
    case True
    then have "toursFrom m arr = {m}"
      by (auto simp: toursFrom_def)
    moreover have "permute start arr m st
        = (let d = tourDist start m
           in if belowMin d (minDist st) then \<lparr>minDist = Some d, bestPath = m\<rparr> else st)"
      using True by (subst permute.simps) simp
    ultimately show ?thesis
      using covers_leaf[of start m st] by simp
  next
    case False
    have "covers start
            (\<Union>i \<in> set [0..<length arr]. toursFrom (m @ [arr ! i]) (take i arr @ drop (Suc i) arr)) st
            (fold (\<lambda>i st'. permute start (take i arr @ drop (Suc i) arr) (m @ [arr ! i]) st')
               [0..<length arr] st)"
      by (rule covers_fold) (use "1.IH"[OF False] in blast)
    moreover have "permute start arr m st
        = fold (\<lambda>i st'. permute start (take i arr @ drop (Suc i) arr) (m @ [arr ! i]) st')
            [0..<length arr] st"
      using False by (subst permute.simps) simp
    moreover have "arr \<noteq> []"
      using False by simp
    ultimately show ?thesis
      using toursFrom_split[of arr m] by simp
  qed
qed

subsection \<open>Claims about the route optimizer\<close>

text \<open>
  C9.  In OPTIMAL mode \<open>solveTSP\<close> returns an ordering of the targets (a permutation of
  \<open>points\<close>) whose tour cost, from \<open>start\<close> through the targets in the returned order, is
  at most the tour cost of every permutation of the targets.
\<close>

theorem solveTSP_optimal:
  "mset (solveTSP start points TSP_OPTIMAL) = mset points
   \<and> (\<forall>qs. mset qs = mset points \<longrightarrow>
          tourCost start (solveTSP start points TSP_OPTIMAL) \<le> tourCost start qs)"
proof -
  define st0 where "st0 = \<lparr>minDist = None, bestPath = ([]::Position list)\<rparr>"
  define st' where "st' = permute start points [] st0"
  have cov: "covers start (toursFrom [] points) st0 st'"
    unfolding st'_def by (rule permute_covers)
  have "points \<in> toursFrom [] points"
    by (simp add: toursFrom_def)
  then have "leMin (minDist st') (tourCost start points)"
    using cov by (auto simp: covers_def)
  then have "st' \<noteq> st0"
    by (auto simp: leMin_def st0_def)
  then have best: "bestPath st' \<in> toursFrom [] points"
    and cost: "minDist st' = Some (tourCost start (bestPath st'))"
    using cov by (auto simp: covers_def)
  have "\<forall>qs. mset qs = mset points \<longrightarrow> tourCost start (bestPath st') \<le> tourCost start qs"
  proof (intro allI impI)
    fix qs :: "Position list"
    assume "mset qs = mset points"
    then have "qs \<in> toursFrom [] points"
      by (simp add: toursFrom_def)
    then have "leMin (minDist st') (tourCost start qs)"
      using cov by (auto simp: covers_def)
    then show "tourCost start (bestPath st') \<le> tourCost start qs"
      using cost by (simp add: leMin_def)
  qed
  moreover have "mset (bestPath st') = mset points"
    using best by (auto simp: toursFrom_def)
  moreover have "solveTSP start points TSP_OPTIMAL = bestPath st'"
    by (simp add: solveTSP_def st'_def st0_def)
  ultimately show ?thesis
    by simp
qed

theorem solveTSP_optimal_witness:
  "mset (cellsOf [(1, 1), (5, 5), (0, 3)]) = mset (cellsOf [(5, 5), (1, 1), (0, 3)])
   \<and> tourCost \<lparr>r = 0, c = 0\<rparr> (solveTSP \<lparr>r = 0, c = 0\<rparr> (cellsOf [(5, 5), (1, 1), (0, 3)]) TSP_OPTIMAL)
       \<le> tourCost \<lparr>r = 0, c = 0\<rparr> (cellsOf [(1, 1), (5, 5), (0, 3)])"
proof -
  have perm: "mset (cellsOf [(1, 1), (5, 5), (0, 3)]) = mset (cellsOf [(5, 5), (1, 1), (0, 3)])"
    by (simp add: cellsOf_def)
  then show ?thesis
    using solveTSP_optimal[of "\<lparr>r = 0, c = 0\<rparr>" "cellsOf [(5, 5), (1, 1), (0, 3)]"] by blast
qed

section \<open>Assignment solver (utils/algorithms.ts, solveAssignment)\<close>

record AssignmentResult =
  riderIndex :: nat
  orderIndex :: nat
  cost :: int

text \<open>
  The variables shared by all calls of \<open>backtrack\<close>: \<open>minTotalCost\<close> (initially
  \<open>Infinity\<close>, here \<open>None\<close>), \<open>bestAssignment\<close>, \<open>usedOrders\<close>, and the one array
  \<open>currentAssignment\<close> that every call writes into.
\<close>

record AssignState =
  minTotalCost :: "int option"
  bestAssignment :: "int list"
  usedOrders :: "nat set"
  currentAssignment :: "int list"

text \<open>
  \<open>backtrack(riderIdx, currentCost, currentAssignment)\<close>.  The first test is the pruning
  \<open>currentCost >= minTotalCost\<close>.  \<open>solveAssignment\<close> calls it at index 0 and every call
  passes \<open>riderIdx + 1\<close>, so an index beyond \<open>n\<close> is never reached; that branch returns
  the state as it is.
\<close>

function backtrack :: "int list list \<Rightarrow> nat \<Rightarrow> nat \<Rightarrow> nat \<Rightarrow> int \<Rightarrow> AssignState \<Rightarrow> AssignState" where
  "backtrack costMatrix n m riderIdx currentCost st =
     (if \<not> belowMin currentCost (minTotalCost st) then st
      else if riderIdx = n
      then (if belowMin currentCost (minTotalCost st)
            then st\<lparr>minTotalCost := Some currentCost, bestAssignment := currentAssignment st\<rparr>
            else st)
      else if n < riderIdx then st
      else
        (case fold (\<lambda>j (s, foundOption).
                 if j \<notin> usedOrders s
                 then (let s1 = s\<lparr>usedOrders := insert j (usedOrders s),
                                    currentAssignment := (currentAssignment s)[riderIdx := int j]\<rparr>;
                           s2 = backtrack costMatrix n m (riderIdx + 1)
                                  (currentCost + costMatrix ! riderIdx ! j) s1
                       in (s2\<lparr>usedOrders := usedOrders s2 - {j}\<rparr>, True))
                 else (s, foundOption))
               [0..<m] (st, False) of
           (st1, foundOption) \<Rightarrow>
             if \<not> foundOption \<and> n > m
             then backtrack costMatrix n m (riderIdx + 1) currentCost
                    (st1\<lparr>currentAssignment := (currentAssignment st1)[riderIdx := -1]\<rparr>)
             else st1))"
  by pat_completeness auto
termination
  by (relation "measure (\<lambda>(costMatrix, n, m, riderIdx, currentCost, st). n - riderIdx)") auto

definition solveAssignment :: "Position list \<Rightarrow> Position list \<Rightarrow> AssignmentResult list" where
  "solveAssignment riderPositions orderPositions =
     (let n = length riderPositions;
          m = length orderPositions;
          costMatrix = map (\<lambda>rp. map (\<lambda>op. getManhattanDistance rp op) orderPositions) riderPositions;
          st = backtrack costMatrix n m 0 0
                 \<lparr>minTotalCost = None, bestAssignment = [], usedOrders = {},
                  currentAssignment = replicate n (-1)\<rparr>
      in concat (map (\<lambda>i. if i < length (bestAssignment st) \<and> bestAssignment st ! i \<noteq> -1
                          then [\<lparr>riderIndex = i, orderIndex = nat (bestAssignment st ! i),
                                 cost = costMatrix ! i ! nat (bestAssignment st ! i)\<rparr>]
                          else []) [0..<n]))"

text \<open>
  A valid matching of riders to targets: the indices are in range, no rider and no target
  occurs twice, each cost is the Manhattan distance of its pair, and as many pairs are
  formed as the smaller side allows.
\<close>

definition isMatching :: "Position list \<Rightarrow> Position list \<Rightarrow> AssignmentResult list \<Rightarrow> bool" where
  "isMatching riderPositions orderPositions rs \<longleftrightarrow>
     list_all (\<lambda>x. riderIndex x < length riderPositions \<and> orderIndex x < length orderPositions
                  \<and> cost x = getManhattanDistance (riderPositions ! riderIndex x)
                                (orderPositions ! orderIndex x)) rs
     \<and> distinct (map riderIndex rs) \<and> distinct (map orderIndex rs)
     \<and> length rs = min (length riderPositions) (length orderPositions)"

definition totalCost :: "AssignmentResult list \<Rightarrow> int" where
  "totalCost rs = sum_list (map cost rs)"

subsection \<open>Optimality when the riders do not outnumber the targets\<close>

text \<open>
  The cost of the first \<open>k\<close> riders under the assignment array \<open>f\<close>: what \<open>currentCost\<close>
  holds when \<open>backtrack\<close> is entered at \<open>riderIdx = k\<close>.
\<close>

definition prefixCost :: "int list list \<Rightarrow> nat \<Rightarrow> int list \<Rightarrow> int" where
  "prefixCost cm k f = sum_list (map (\<lambda>i. cm ! i ! nat (f ! i)) [0..<k])"

text \<open>
  The full assignment arrays the call at \<open>riderIdx = k\<close> ranges over: they agree with the
  current array on the first \<open>k\<close> riders and give the remaining riders distinct targets
  that are not in \<open>usedOrders\<close>.
\<close>

definition completions :: "nat \<Rightarrow> nat \<Rightarrow> nat \<Rightarrow> nat set \<Rightarrow> int list \<Rightarrow> int list set" where
  "completions n m k U a =
     {f. length f = n \<and> take k f = take k a \<and> distinct (drop k f)
         \<and> (\<forall>x \<in> set (drop k f). \<exists>j < m. x = int j \<and> j \<notin> U)}"

definition nonnegCosts :: "int list list \<Rightarrow> nat \<Rightarrow> nat \<Rightarrow> bool" where
  "nonnegCosts cm n m \<longleftrightarrow> (\<forall>i < n. \<forall>j < m. 0 \<le> cm ! i ! j)"

lemma prefixCost_Suc: "prefixCost cm (Suc k) f = prefixCost cm k f + cm ! k ! nat (f ! k)"
  by (simp add: prefixCost_def)

lemma prefixCost_take:
  "take k f = take k g \<Longrightarrow> prefixCost cm k f = prefixCost cm k g"
proof -
  assume eq: "take k f = take k g"
  have "f ! i = g ! i" if "i < k" for i
    using eq that by (metis nth_take)
  then show ?thesis
    by (auto simp: prefixCost_def intro!: arg_cong[where f = sum_list] map_cong)
qed

lemma completions_take:
  "take k a = take k a' \<Longrightarrow> completions n m k U a = completions n m k U a'"
  by (simp add: completions_def)

lemma completion_cost_mono:
  assumes f: "f \<in> completions n m k U a" and nn: "nonnegCosts cm n m" and k: "k \<le> j" "j \<le> n"
  shows "prefixCost cm k f \<le> prefixCost cm j f"
  using k
proof (induction j)
  case 0
  then show ?case by simp
next
  case (Suc j)
  show ?case
  proof (cases "k = Suc j")
    case True
    then show ?thesis by simp
  next
    case False
    then have kj: "k \<le> j" "j < n"
      using Suc.prems by simp_all
    have len: "length f = n"
      using f by (simp add: completions_def)
    have "drop k f ! (j - k) = f ! j" "j - k < length (drop k f)"
      using kj len by simp_all
    then have "f ! j \<in> set (drop k f)"
      using nth_mem by metis
    then obtain x where "x < m" "f ! j = int x"
      using f by (auto simp: completions_def)
    then have "0 \<le> cm ! j ! nat (f ! j)"
      using nn kj by (simp add: nonnegCosts_def)
    then show ?thesis
      using Suc.IH kj by (simp add: prefixCost_Suc)
  qed
qed

lemma completion_cost_lower:
  assumes "f \<in> completions n m k U a" "nonnegCosts cm n m" "k \<le> n"
  shows "prefixCost cm k a \<le> prefixCost cm n f"
proof -
  have "prefixCost cm k a = prefixCost cm k f"
    using assms(1) by (intro prefixCost_take) (simp add: completions_def)
  then show ?thesis
    using completion_cost_mono[OF assms(1,2), of n] assms(3) by simp
qed

lemma completions_leaf: "length a = n \<Longrightarrow> completions n m n U a = {a}"
  by (auto simp: completions_def)

lemma completions_split:
  assumes k: "k < n" and len: "length a = n"
  shows "completions n m k U a
         = (\<Union>j \<in> {j. j < m \<and> j \<notin> U}. completions n m (Suc k) (insert j U) (a[k := int j]))"
proof (intro set_eqI iffI)
  fix f
  assume f: "f \<in> completions n m k U a"
  then have flen: "length f = n" and pre: "take k f = take k a" and dist: "distinct (drop k f)"
    and vals: "\<forall>x \<in> set (drop k f). \<exists>j < m. x = int j \<and> j \<notin> U"
    by (simp_all add: completions_def)
  have dropk: "drop k f = f ! k # drop (Suc k) f"
    using k flen by (simp add: Cons_nth_drop_Suc)
  then obtain j where j: "j < m" "f ! k = int j" "j \<notin> U"
    using vals by auto
  have "take (Suc k) f = take (Suc k) (a[k := int j])"
    using k flen len pre j(2) by (simp add: take_Suc_conv_app_nth)
  moreover have "distinct (drop (Suc k) f)"
    using dist dropk by simp
  moreover have "\<exists>j' < m. x = int j' \<and> j' \<notin> insert j U" if "x \<in> set (drop (Suc k) f)" for x
  proof -
    have "x \<in> set (drop k f)"
      using that dropk by simp
    then obtain j' where "j' < m" "x = int j'" "j' \<notin> U"
      using vals by blast
    moreover have "x \<noteq> f ! k"
      using dist dropk that by auto
    ultimately show ?thesis
      using j(2) by auto
  qed
  ultimately have "f \<in> completions n m (Suc k) (insert j U) (a[k := int j])"
    using flen by (simp add: completions_def)
  then show "f \<in> (\<Union>j \<in> {j. j < m \<and> j \<notin> U}. completions n m (Suc k) (insert j U) (a[k := int j]))"
    using j by blast
next
  fix f
  assume "f \<in> (\<Union>j \<in> {j. j < m \<and> j \<notin> U}. completions n m (Suc k) (insert j U) (a[k := int j]))"
  then obtain j where j: "j < m" "j \<notin> U"
    and f: "f \<in> completions n m (Suc k) (insert j U) (a[k := int j])"
    by blast
  have flen: "length f = n" and pre: "take (Suc k) f = take (Suc k) (a[k := int j])"
    and dist: "distinct (drop (Suc k) f)"
    and vals: "\<forall>x \<in> set (drop (Suc k) f). \<exists>j' < m. x = int j' \<and> j' \<notin> insert j U"
    using f by (simp_all add: completions_def)
  have fk: "f ! k = int j" and prek: "take k f = take k a"
    using pre k flen len by (simp_all add: take_Suc_conv_app_nth)
  have dropk: "drop k f = f ! k # drop (Suc k) f"
    using k flen by (simp add: Cons_nth_drop_Suc)
  have "f ! k \<notin> set (drop (Suc k) f)"
    using vals fk by auto
  then have "distinct (drop k f)"
    using dist dropk by simp
  moreover have "\<forall>x \<in> set (drop k f). \<exists>j' < m. x = int j' \<and> j' \<notin> U"
    using vals fk j dropk by auto
  ultimately show "f \<in> completions n m k U a"
    using flen prek by (simp add: completions_def)
qed

text \<open>
  \<open>btCovers cm n T st st'\<close>: going from \<open>st\<close> to \<open>st'\<close> the recorded minimum only went
  down, it is now at most the cost of every array in \<open>T\<close>, and if it changed at all the
  state records an array of \<open>T\<close> together with its cost.  \<open>btFrame\<close>: a call gives back
  \<open>usedOrders\<close> and the first \<open>k\<close> entries of \<open>currentAssignment\<close> as it found them.
\<close>

definition btCovers :: "int list list \<Rightarrow> nat \<Rightarrow> int list set \<Rightarrow> AssignState \<Rightarrow> AssignState \<Rightarrow> bool" where
  "btCovers cm n T st st' \<longleftrightarrow>
     (\<forall>v. leMin (minTotalCost st) v \<longrightarrow> leMin (minTotalCost st') v)
     \<and> (\<forall>f \<in> T. leMin (minTotalCost st') (prefixCost cm n f))
     \<and> ((minTotalCost st' = minTotalCost st \<and> bestAssignment st' = bestAssignment st)
        \<or> (bestAssignment st' \<in> T \<and> minTotalCost st' = Some (prefixCost cm n (bestAssignment st'))))"

definition btFrame :: "nat \<Rightarrow> AssignState \<Rightarrow> AssignState \<Rightarrow> bool" where
  "btFrame k st st' \<longleftrightarrow>
     usedOrders st' = usedOrders st
     \<and> length (currentAssignment st') = length (currentAssignment st)
     \<and> take k (currentAssignment st') = take k (currentAssignment st)"

definition btSpec :: "int list list \<Rightarrow> nat \<Rightarrow> nat \<Rightarrow> nat \<Rightarrow> int \<Rightarrow> AssignState \<Rightarrow> bool" where
  "btSpec cm n m k cst st \<longleftrightarrow>
     (n \<le> m \<longrightarrow> nonnegCosts cm n m \<longrightarrow> k \<le> n \<longrightarrow> length (currentAssignment st) = n
      \<longrightarrow> cst = prefixCost cm k (currentAssignment st)
      \<longrightarrow> btCovers cm n (completions n m k (usedOrders st) (currentAssignment st)) st
            (backtrack cm n m k cst st)
          \<and> btFrame k st (backtrack cm n m k cst st))"

lemma btCovers_trans:
  "btCovers cm n T1 st st1 \<Longrightarrow> btCovers cm n T2 st1 st2 \<Longrightarrow> btCovers cm n (T1 \<union> T2) st st2"
  unfolding btCovers_def by (elim conjE disjE; intro conjI; (simp; fail | blast))

lemma btCovers_same:
  "minTotalCost st' = minTotalCost st \<Longrightarrow> bestAssignment st' = bestAssignment st \<Longrightarrow>
   btCovers cm n {} st st'"
  by (simp add: btCovers_def)

lemma btCovers_cong_src:
  "minTotalCost s1 = minTotalCost s \<Longrightarrow> bestAssignment s1 = bestAssignment s \<Longrightarrow>
   btCovers cm n T s1 s2 \<Longrightarrow> btCovers cm n T s s2"
  by (simp add: btCovers_def)

lemma btCovers_cong_dst:
  "minTotalCost s3 = minTotalCost s2 \<Longrightarrow> bestAssignment s3 = bestAssignment s2 \<Longrightarrow>
   btCovers cm n T s s2 \<Longrightarrow> btCovers cm n T s s3"
  by (simp add: btCovers_def)

lemma fold_inv_set:
  assumes step: "\<And>j s J. j \<in> set js \<Longrightarrow> Q J s \<Longrightarrow> Q (insert j J) (f j s)"
    and init: "Q J0 s0"
  shows "Q (J0 \<union> set js) (fold f js s0)"
  using assms
proof (induction js arbitrary: J0 s0)
  case Nil
  then show ?case by simp
next
  case (Cons j js)
  have "Q (insert j J0) (f j s0)"
    using Cons.prems by simp
  then have "Q (insert j J0 \<union> set js) (fold f js (f j s0))"
    using Cons.prems(1) by (intro Cons.IH) simp_all
  then show ?case
    by simp
qed

lemma backtrack_spec: "btSpec cm n m k cst st"
proof (induction cm n m k cst st rule: backtrack.induct)
  case (1 cm n m k cst st)
  show ?case
    unfolding btSpec_def
  proof (intro impI)
    assume nm: "n \<le> m" and nn: "nonnegCosts cm n m" and kn: "k \<le> n"
      and len: "length (currentAssignment st) = n"
      and cst: "cst = prefixCost cm k (currentAssignment st)"
    define U where "U = usedOrders st"
    define a where "a = currentAssignment st"
    define T where "T = completions n m k U a"
    have goal_eq: "completions n m k (usedOrders st) (currentAssignment st) = T"
      by (simp add: T_def U_def a_def)
    show "btCovers cm n (completions n m k (usedOrders st) (currentAssignment st)) st
            (backtrack cm n m k cst st)
          \<and> btFrame k st (backtrack cm n m k cst st)"
      unfolding goal_eq
    proof (cases "belowMin cst (minTotalCost st)")
      case False
      have res: "backtrack cm n m k cst st = st"
        by (subst backtrack.simps) (simp add: False)
      obtain b where b: "minTotalCost st = Some b" "b \<le> cst"
        using False by (auto simp: belowMin_def split: option.splits)
      have "leMin (minTotalCost st) (prefixCost cm n f)" if "f \<in> T" for f
      proof -
        have "cst \<le> prefixCost cm n f"
          using that completion_cost_lower[of f n m k U a cm] nn kn cst
          by (simp add: T_def a_def)
        then show ?thesis
          using b by (simp add: leMin_def)
      qed
      then show "btCovers cm n T st (backtrack cm n m k cst st) \<and> btFrame k st (backtrack cm n m k cst st)"
        unfolding res by (simp add: btCovers_def btFrame_def)
    next
      case True
      show "btCovers cm n T st (backtrack cm n m k cst st) \<and> btFrame k st (backtrack cm n m k cst st)"
      proof (cases "k = n")
        case at_leaf: True
        have res: "backtrack cm n m k cst st
            = st\<lparr>minTotalCost := Some cst, bestAssignment := currentAssignment st\<rparr>"
          by (subst backtrack.simps) (simp add: True at_leaf)
        have leaf: "T = {a}"
          using len at_leaf by (simp add: T_def a_def completions_leaf)
        have cost: "prefixCost cm n a = cst"
          using cst at_leaf by (simp add: a_def)
        have "leMin (Some cst) v" if "leMin (minTotalCost st) v" for v
          using that True by (auto simp: leMin_def belowMin_def)
        moreover have "prefixCost cm n (currentAssignment st) = cst"
          using cost by (simp add: a_def)
        ultimately show ?thesis
          unfolding res leaf
          by (simp add: btCovers_def btFrame_def a_def leMin_def)
      next
        case inner: False
        then have k_lt: "k < n"
          using kn by simp
        define body where "body = (\<lambda>j (s, foundOption).
                 if j \<notin> usedOrders s
                 then (let s1 = s\<lparr>usedOrders := insert j (usedOrders s),
                                    currentAssignment := (currentAssignment s)[k := int j]\<rparr>;
                           s2 = backtrack cm n m (k + 1) (cst + cm ! k ! j) s1
                       in (s2\<lparr>usedOrders := usedOrders s2 - {j}\<rparr>, True))
                 else (s, foundOption))"
        have res: "backtrack cm n m k cst st = fst (fold body [0..<m] (st, False))"
          using True inner k_lt nm
          by (subst backtrack.simps) (simp add: body_def split: prod.splits)
        define Q where "Q = (\<lambda>J (sf :: AssignState \<times> bool).
            btCovers cm n (\<Union>j \<in> J \<inter> {j. j < m \<and> j \<notin> U}.
                              completions n m (Suc k) (insert j U) (a[k := int j])) st (fst sf)
            \<and> usedOrders (fst sf) = U \<and> length (currentAssignment (fst sf)) = n
            \<and> take k (currentAssignment (fst sf)) = take k a)"
        have init: "Q {} (st, False)"
          by (simp add: Q_def btCovers_same U_def a_def len)
        have step: "Q (insert j J) (body j sf)" if j: "j \<in> set [0..<m]" and q: "Q J sf" for j sf J
        proof -
          obtain s found where sf: "sf = (s, found)"
            by (cases sf)
          have cov: "btCovers cm n (\<Union>j \<in> J \<inter> {j. j < m \<and> j \<notin> U}.
                              completions n m (Suc k) (insert j U) (a[k := int j])) st s"
            and used: "usedOrders s = U" and slen: "length (currentAssignment s) = n"
            and pre: "take k (currentAssignment s) = take k a"
            using q by (simp_all add: Q_def sf)
          show ?thesis
          proof (cases "j \<in> U")
            case True
            then have "body j sf = sf"
              by (simp add: body_def sf used)
            moreover have "insert j J \<inter> {j. j < m \<and> j \<notin> U} = J \<inter> {j. j < m \<and> j \<notin> U}"
              using True by auto
            ultimately show ?thesis
              using q by (simp add: Q_def)
          next
            case False
            define s1 where "s1 = s\<lparr>usedOrders := insert j (usedOrders s),
                                    currentAssignment := (currentAssignment s)[k := int j]\<rparr>"
            define s2 where "s2 = backtrack cm n m (k + 1) (cst + cm ! k ! j) s1"
            have body_eq: "body j sf = (s2\<lparr>usedOrders := usedOrders s2 - {j}\<rparr>, True)"
              using False by (simp add: body_def sf used s1_def s2_def Let_def)
            have spec: "btSpec cm n m (k + 1) (cst + cm ! k ! j) s1"
              using True inner k_lt j False
              by (intro "1.IH"(1)[where xa = s]) (simp_all add: used s1_def)
            have len1: "length (currentAssignment s1) = n"
              by (simp add: s1_def slen)
            have pre1: "take (Suc k) (currentAssignment s1) = take (Suc k) (a[k := int j])"
              using k_lt slen len pre by (simp add: s1_def a_def take_Suc_conv_app_nth)
            have "prefixCost cm k (currentAssignment s1) = prefixCost cm k a"
              using pre k_lt slen by (intro prefixCost_take) (simp add: s1_def)
            moreover have "currentAssignment s1 ! k = int j"
              using k_lt slen by (simp add: s1_def)
            ultimately have cost1: "cst + cm ! k ! j = prefixCost cm (k + 1) (currentAssignment s1)"
              using cst by (simp add: prefixCost_Suc a_def)
            have call: "btCovers cm n (completions n m (k + 1) (usedOrders s1) (currentAssignment s1)) s1 s2"
              and frame: "btFrame (k + 1) s1 s2"
              using spec nm nn k_lt len1 cost1 unfolding btSpec_def s2_def by simp_all
            have comp_eq: "completions n m (k + 1) (usedOrders s1) (currentAssignment s1)
                = completions n m (Suc k) (insert j U) (a[k := int j])"
              using completions_take[OF pre1] by (simp add: s1_def used)
            have "btCovers cm n (completions n m (Suc k) (insert j U) (a[k := int j])) s s2"
              using call unfolding comp_eq
              by (rule btCovers_cong_src[rotated 2]) (simp_all add: s1_def)
            then have "btCovers cm n
                ((\<Union>j \<in> J \<inter> {j. j < m \<and> j \<notin> U}. completions n m (Suc k) (insert j U) (a[k := int j]))
                 \<union> completions n m (Suc k) (insert j U) (a[k := int j])) st s2"
              using cov by (rule btCovers_trans[rotated])
            moreover have "(\<Union>j \<in> J \<inter> {j. j < m \<and> j \<notin> U}. completions n m (Suc k) (insert j U) (a[k := int j]))
                 \<union> completions n m (Suc k) (insert j U) (a[k := int j])
                = (\<Union>j \<in> insert j J \<inter> {j. j < m \<and> j \<notin> U}.
                     completions n m (Suc k) (insert j U) (a[k := int j]))"
              using False j by auto
            ultimately have cov2: "btCovers cm n
                (\<Union>j \<in> insert j J \<inter> {j. j < m \<and> j \<notin> U}.
                     completions n m (Suc k) (insert j U) (a[k := int j])) st
                (s2\<lparr>usedOrders := usedOrders s2 - {j}\<rparr>)"
              by (simp add: btCovers_def)
            have used2: "usedOrders s2 - {j} = U"
              using frame False by (simp add: btFrame_def s1_def used)
            have len2: "length (currentAssignment s2) = n"
              using frame len1 by (simp add: btFrame_def)
            have "take k (take (Suc k) (currentAssignment s2)) = take k (take (Suc k) (currentAssignment s1))"
              using frame by (simp add: btFrame_def)
            then have pre2: "take k (currentAssignment s2) = take k a"
              using pre k_lt slen by (simp add: s1_def min_def)
            show ?thesis
              unfolding body_eq Q_def using cov2 used2 len2 pre2 by simp
          qed
        qed
        have "Q ({} \<union> set [0..<m]) (fold body [0..<m] (st, False))"
          using step init by (rule fold_inv_set)
        moreover have "(\<Union>j \<in> ({} \<union> set [0..<m]) \<inter> {j. j < m \<and> j \<notin> U}.
                          completions n m (Suc k) (insert j U) (a[k := int j])) = T"
        proof -
          have "({} \<union> set [0..<m]) \<inter> {j. j < m \<and> j \<notin> U} = {j. j < m \<and> j \<notin> U}"
            by auto
          then show ?thesis
            using completions_split[OF k_lt, of a m U] len by (simp add: T_def a_def)
        qed
        ultimately show ?thesis
          unfolding res Q_def btFrame_def by (simp add: U_def a_def len)
      qed
    qed
  qed
qed

text \<open>The \<open>costMatrix\<close> of \<open>solveAssignment\<close>, and the arrays pairing every rider with a target of its own.\<close>

definition costMatrixOf :: "Position list \<Rightarrow> Position list \<Rightarrow> int list list" where
  "costMatrixOf riderPositions orderPositions =
     map (\<lambda>rp. map (\<lambda>op. getManhattanDistance rp op) orderPositions) riderPositions"

definition injections :: "nat \<Rightarrow> nat \<Rightarrow> int list set" where
  "injections n m = {f. length f = n \<and> distinct f \<and> (\<forall>x \<in> set f. \<exists>j < m. x = int j)}"

lemma completions_root: "completions n m 0 {} a = injections n m"
  by (auto simp: completions_def injections_def)

lemma costMatrixOf_nth:
  "i < length R \<Longrightarrow> j < length T \<Longrightarrow> costMatrixOf R T ! i ! j = getManhattanDistance (R ! i) (T ! j)"
  by (simp add: costMatrixOf_def)

lemma costMatrixOf_nonneg: "nonnegCosts (costMatrixOf R T) (length R) (length T)"
  by (simp add: nonnegCosts_def costMatrixOf_nth getManhattanDistance_def)

lemma injections_nonempty: "n \<le> m \<Longrightarrow> map int [0..<n] \<in> injections n m"
  by (auto simp: injections_def distinct_map inj_on_def)

lemma backtrack_root:
  assumes nm: "n \<le> m" and nn: "nonnegCosts cm n m"
  shows "bestAssignment (backtrack cm n m 0 0
            \<lparr>minTotalCost = None, bestAssignment = [], usedOrders = {},
             currentAssignment = replicate n (-1)\<rparr>) \<in> injections n m
         \<and> (\<forall>f \<in> injections n m.
              prefixCost cm n (bestAssignment (backtrack cm n m 0 0
                \<lparr>minTotalCost = None, bestAssignment = [], usedOrders = {},
                 currentAssignment = replicate n (-1)\<rparr>)) \<le> prefixCost cm n f)"
proof -
  define st0 where "st0 = \<lparr>minTotalCost = None, bestAssignment = [], usedOrders = {},
             currentAssignment = replicate n (-1)\<rparr>"
  define st' where "st' = backtrack cm n m 0 0 st0"
  have "btSpec cm n m 0 0 st0"
    by (rule backtrack_spec)
  then have cov: "btCovers cm n (injections n m) st0 st'"
    using nm nn by (simp add: btSpec_def st0_def st'_def prefixCost_def completions_root)
  then have all: "\<forall>f \<in> injections n m. leMin (minTotalCost st') (prefixCost cm n f)"
    by (simp add: btCovers_def)
  then have "leMin (minTotalCost st') (prefixCost cm n (map int [0..<n]))"
    using injections_nonempty[OF nm] by blast
  then have "minTotalCost st' \<noteq> minTotalCost st0"
    by (auto simp: leMin_def st0_def)
  then have best: "bestAssignment st' \<in> injections n m"
    and rec: "minTotalCost st' = Some (prefixCost cm n (bestAssignment st'))"
    using cov by (auto simp: btCovers_def)
  have "prefixCost cm n (bestAssignment st') \<le> prefixCost cm n f" if "f \<in> injections n m" for f
    using all that rec by (auto simp: leMin_def)
  then show ?thesis
    using best unfolding st'_def st0_def by blast
qed

lemma concat_map_if_all:
  "(\<And>i. i \<in> set xs \<Longrightarrow> P i) \<Longrightarrow> concat (map (\<lambda>i. if P i then [g i] else []) xs) = map g xs"
  by (induction xs) simp_all

lemma solveAssignment_best:
  assumes nm: "length R \<le> length T"
  shows "\<exists>best \<in> injections (length R) (length T).
           solveAssignment R T
             = map (\<lambda>i. \<lparr>riderIndex = i, orderIndex = nat (best ! i),
                          cost = costMatrixOf R T ! i ! nat (best ! i)\<rparr>) [0..<length R]
           \<and> (\<forall>f \<in> injections (length R) (length T).
                 prefixCost (costMatrixOf R T) (length R) best
                   \<le> prefixCost (costMatrixOf R T) (length R) f)"
proof -
  define best where "best = bestAssignment (backtrack (costMatrixOf R T) (length R) (length T) 0 0
            \<lparr>minTotalCost = None, bestAssignment = [], usedOrders = {},
             currentAssignment = replicate (length R) (-1)\<rparr>)"
  have root: "best \<in> injections (length R) (length T)"
     "\<forall>f \<in> injections (length R) (length T).
        prefixCost (costMatrixOf R T) (length R) best \<le> prefixCost (costMatrixOf R T) (length R) f"
    using backtrack_root[OF nm costMatrixOf_nonneg] by (simp_all add: best_def del: backtrack.simps)
  have len: "length best = length R"
    using root(1) by (simp add: injections_def)
  have ok: "i < length best \<and> best ! i \<noteq> -1" if "i \<in> set [0..<length R]" for i
  proof -
    have "best ! i \<in> set best"
      using that len by simp
    then obtain j where "best ! i = int j"
      using root(1) by (auto simp: injections_def)
    then show ?thesis
      using that len by simp
  qed
  have "solveAssignment R T
      = concat (map (\<lambda>i. if i < length best \<and> best ! i \<noteq> -1
                          then [\<lparr>riderIndex = i, orderIndex = nat (best ! i),
                                 cost = costMatrixOf R T ! i ! nat (best ! i)\<rparr>]
                          else []) [0..<length R])"
    unfolding solveAssignment_def Let_def best_def costMatrixOf_def by (rule refl)
  also have "\<dots> = map (\<lambda>i. \<lparr>riderIndex = i, orderIndex = nat (best ! i),
                          cost = costMatrixOf R T ! i ! nat (best ! i)\<rparr>) [0..<length R]"
    using ok by (rule concat_map_if_all)
  finally show ?thesis
    using root by blast
qed

lemma injection_isMatching:
  assumes f: "f \<in> injections (length R) (length T)"
  shows "isMatching R T (map (\<lambda>i. \<lparr>riderIndex = i, orderIndex = nat (f ! i),
                          cost = costMatrixOf R T ! i ! nat (f ! i)\<rparr>) [0..<length R])"
proof -
  have len: "length f = length R" and dist: "distinct f"
    and vals: "\<forall>x \<in> set f. \<exists>j < length T. x = int j"
    using f by (simp_all add: injections_def)
  have rng: "nat (f ! i) < length T" if "i < length R" for i
  proof -
    have "f ! i \<in> set f"
      using that len by simp
    then show ?thesis
      using vals by auto
  qed
  have "0 \<le> x" if "x \<in> set f" for x
    using vals that by auto
  then have "inj_on nat (set f)"
    by (intro inj_onI) (metis nat_0_le)
  then have "distinct (map nat f)"
    using dist by (simp add: distinct_map)
  moreover have "map (\<lambda>i. nat (f ! i)) [0..<length R] = map nat f"
    unfolding len[symmetric] by (rule nth_equalityI) simp_all
  ultimately have d2: "distinct (map (\<lambda>i. nat (f ! i)) [0..<length R])"
    by simp
  have n_le: "length R \<le> length T"
  proof -
    have "card (nat ` set f) \<le> card {0..<length T}"
      using vals by (intro card_mono) auto
    moreover have "card (nat ` set f) = length f"
      using \<open>inj_on nat (set f)\<close> dist by (simp add: card_image distinct_card)
    ultimately show ?thesis
      using len by simp
  qed
  show ?thesis
    using rng d2 n_le
    by (simp add: isMatching_def list_all_iff comp_def costMatrixOf_nth min_def)
qed

lemma injection_totalCost:
  "totalCost (map (\<lambda>i. \<lparr>riderIndex = i, orderIndex = nat (f ! i),
                          cost = costMatrixOf R T ! i ! nat (f ! i)\<rparr>) [0..<length R])
     = prefixCost (costMatrixOf R T) (length R) f"
  by (simp add: totalCost_def prefixCost_def comp_def)

lemma matching_as_injection:
  assumes nm: "length R \<le> length T" and mt: "isMatching R T rs"
  shows "\<exists>f \<in> injections (length R) (length T).
           prefixCost (costMatrixOf R T) (length R) f = totalCost rs"
proof -
  define ris where "ris = map riderIndex rs"
  define ois where "ois = map orderIndex rs"
  define h where "h = (\<lambda>i. the (map_of (zip ris ois) i))"
  define f where "f = map (\<lambda>i. int (h i)) [0..<length R]"
  have each: "\<forall>x \<in> set rs. riderIndex x < length R \<and> orderIndex x < length T
                  \<and> cost x = getManhattanDistance (R ! riderIndex x) (T ! orderIndex x)"
    and dr: "distinct ris" and dord: "distinct ois" and len: "length rs = length R"
    using mt nm by (simp_all add: isMatching_def list_all_iff ris_def ois_def min_def)
  have lens: "length ris = length R" "length ois = length R"
    using len by (simp_all add: ris_def ois_def)
  have "set ris \<subseteq> {0..<length R}"
    using each by (auto simp: ris_def)
  moreover have "card (set ris) = card {0..<length R}"
    using dr lens by (simp add: distinct_card)
  ultimately have ris_set: "set ris = {0..<length R}"
    by (intro card_subset_eq) simp_all
  have hk: "h (ris ! k) = ois ! k" if "k < length R" for k
  proof -
    have "map_of (zip ris ois) (ris ! k) = Some (ois ! k)"
      using dr lens that by (intro map_of_zip_nth) simp_all
    then show ?thesis
      by (simp add: h_def)
  qed
  have h_rider: "h (riderIndex x) = orderIndex x" if xin: "x \<in> set rs" for x
  proof -
    obtain k where k: "k < length rs" "rs ! k = x"
      using xin unfolding in_set_conv_nth by blast
    then have "ris ! k = riderIndex x" "ois ! k = orderIndex x"
      by (simp_all add: ris_def ois_def)
    then show ?thesis
      using hk[of k] k len by simp
  qed
  have h_lt: "h i < length T" if "i < length R" for i
  proof -
    have "i \<in> set ris"
      using that ris_set by simp
    then obtain x where x: "x \<in> set rs" "riderIndex x = i"
      by (auto simp: ris_def)
    then have "orderIndex x < length T"
      using each by blast
    then show ?thesis
      using h_rider[OF x(1)] x(2) by simp
  qed
  have h_inj: "inj_on h {0..<length R}"
  proof (rule inj_onI)
    fix i j
    assume "i \<in> {0..<length R}" "j \<in> {0..<length R}" and eq: "h i = h j"
    then have "i \<in> set ris" "j \<in> set ris"
      using ris_set by simp_all
    then obtain k l where "k < length ris" "ris ! k = i" "l < length ris" "ris ! l = j"
      unfolding in_set_conv_nth by blast
    then have kl: "k < length R" "ris ! k = i" "l < length R" "ris ! l = j"
      using lens by simp_all
    have "ois ! k = h i" "ois ! l = h j"
      using hk[of k] hk[of l] kl by simp_all
    then have "ois ! k = ois ! l"
      using eq by simp
    then have "k = l"
      using dord kl lens by (simp add: nth_eq_iff_index_eq)
    then show "i = j"
      using kl by simp
  qed
  have "inj_on (\<lambda>i. int (h i)) (set [0..<length R])"
    using h_inj by (auto simp: inj_on_def)
  then have "distinct f"
    by (simp add: f_def distinct_map)
  then have mem: "f \<in> injections (length R) (length T)"
    using h_lt by (auto simp: injections_def f_def)
  have "totalCost rs = sum_list (map (\<lambda>x. costMatrixOf R T ! riderIndex x ! h (riderIndex x)) rs)"
    unfolding totalCost_def using each h_rider
    by (intro arg_cong[where f = sum_list] map_cong) (simp_all add: costMatrixOf_nth)
  also have "\<dots> = sum_list (map (\<lambda>i. costMatrixOf R T ! i ! h i) ris)"
    by (simp add: ris_def comp_def)
  also have "\<dots> = sum (\<lambda>i. costMatrixOf R T ! i ! h i) (set ris)"
    using dr by (rule sum_list_distinct_conv_sum_set)
  also have "\<dots> = sum (\<lambda>i. costMatrixOf R T ! i ! h i) (set [0..<length R])"
    using ris_set by simp
  also have "\<dots> = sum_list (map (\<lambda>i. costMatrixOf R T ! i ! h i) [0..<length R])"
    by (rule sum_list_distinct_conv_sum_set[symmetric]) simp
  also have "\<dots> = prefixCost (costMatrixOf R T) (length R) f"
    unfolding prefixCost_def
    by (intro arg_cong[where f = sum_list] map_cong) (simp_all add: f_def)
  finally have "prefixCost (costMatrixOf R T) (length R) f = totalCost rs"
    by simp
  with mem show ?thesis
    by (rule bexI[rotated])
qed

text \<open>
  With at least as many targets as riders the result is a valid matching, and no valid
  matching is cheaper.
\<close>

lemma solveAssignment_optimal_enough_targets:
  assumes nm: "length R \<le> length T" and mt: "isMatching R T rs"
  shows "isMatching R T (solveAssignment R T) \<and> totalCost (solveAssignment R T) \<le> totalCost rs"
proof -
  obtain best where best: "best \<in> injections (length R) (length T)"
    and res: "solveAssignment R T
             = map (\<lambda>i. \<lparr>riderIndex = i, orderIndex = nat (best ! i),
                          cost = costMatrixOf R T ! i ! nat (best ! i)\<rparr>) [0..<length R]"
    and opt: "\<forall>f \<in> injections (length R) (length T).
                 prefixCost (costMatrixOf R T) (length R) best
                   \<le> prefixCost (costMatrixOf R T) (length R) f"
    using solveAssignment_best[OF nm] by blast
  obtain f where f: "f \<in> injections (length R) (length T)"
    "prefixCost (costMatrixOf R T) (length R) f = totalCost rs"
    using matching_as_injection[OF nm mt] by blast
  have "totalCost (solveAssignment R T) = prefixCost (costMatrixOf R T) (length R) best"
    unfolding res by (rule injection_totalCost)
  moreover have "isMatching R T (solveAssignment R T)"
    unfolding res using best by (rule injection_isMatching)
  ultimately show ?thesis
    using opt f by auto
qed

subsection \<open>Claims about the assignment solver\<close>

text \<open>
  C2 (fails on the code when riders outnumber targets).  The claim: the returned matching
  costs no more than any other valid one-to-one matching.  A rider is skipped only when no
  target is left (\<open>!foundOption && n > m\<close>), so with more riders than targets the targets
  always go to the first riders.  With riders at (0,0) and (5,5) and one target at (5,5)
  the code pairs rider 0 with the target at cost 10, while pairing rider 1 with it is a
  valid matching of cost 0.  The header comment of the solver calls it definitively
  optimal; it is, by \<open>solveAssignment_optimal_enough_targets\<close>, exactly as long as the
  riders do not outnumber the targets.
\<close>

theorem solveAssignment_not_optimal:
  "solveAssignment (cellsOf [(0, 0), (5, 5)]) (cellsOf [(5, 5)])
     = [\<lparr>riderIndex = 0, orderIndex = 0, cost = 10\<rparr>]
   \<and> totalCost (solveAssignment (cellsOf [(0, 0), (5, 5)]) (cellsOf [(5, 5)])) = 10
   \<and> isMatching (cellsOf [(0, 0), (5, 5)]) (cellsOf [(5, 5)])
        [\<lparr>riderIndex = 1, orderIndex = 0, cost = 0\<rparr>]
   \<and> totalCost [\<lparr>riderIndex = 1, orderIndex = 0, cost = 0\<rparr>] = 0"
  by code_simp

section \<open>Simulation data model (types.ts, constants.ts)\<close>

datatype EntityType = RIDER | HOTEL | HOME | WALL

datatype RiderStatus = IDLE | MOVING_TO_HOTEL | WAITING_FOR_FOOD | DELIVERING | RETURNING

datatype OrderStatus = COOKING | READY | DELIVERED

text \<open>
  An order.  The three statistics are optional in the source (absent until set).
\<close>

record Order =
  id :: string
  homeId :: string
  hotelId :: string
  riderId :: "string option"
  status :: OrderStatus
  cookingTimeRemainingMs :: int
  timestamp :: string
  pickupTime :: "int option"
  actualDeliveryTimeMs :: "int option"
  blocksCovered :: "int option"

record Entity =
  id :: string
  type :: EntityType
  pos :: Position
  label :: string
  color :: string

text \<open>
  A rider extends an entity.  \<open>speed\<close> and \<open>movementAccumulator\<close> are fractional numbers
  of the source; each is held as the exact value of the double.
\<close>

record Rider = Entity +
  status :: RiderStatus
  pathQueue :: "Position list"
  assignedOrderIds :: "string list"
  targetEntityId :: "string option"
  speed :: real
  movementAccumulator :: real
  deliveryQueue :: "string list option"
  totalEarnings :: int
  totalOrdersDelivered :: int
  totalDistanceTraveled :: int

definition COOKING_TIME_MS :: int where
  "COOKING_TIME_MS = 15000"

definition DELAY_MS :: int where
  "DELAY_MS = 50"

definition RIDER_IDLE :: string where
  "RIDER_IDLE = ''bg-cyan-500 text-white''"

definition RIDER_BUSY :: string where
  "RIDER_BUSY = ''bg-indigo-500 text-white''"

text \<open>A rider as \<open>handleCellClick\<close> places it; the speed is drawn at random by the source.\<close>

definition placedRider :: "string \<Rightarrow> Position \<Rightarrow> string \<Rightarrow> real \<Rightarrow> Rider" where
  "placedRider rid p lbl s =
     \<lparr>Entity.id = rid, type = RIDER, pos = p, label = lbl, color = RIDER_IDLE,
      Rider.status = IDLE, pathQueue = [], assignedOrderIds = [], targetEntityId = None,
      speed = s, movementAccumulator = 0, deliveryQueue = None, totalEarnings = 0,
      totalOrdersDelivered = 0, totalDistanceTraveled = 0\<rparr>"

section \<open>Numbers of the source\<close>

text \<open>
  A \<open>number\<close> of the source is an IEEE 754 double.  It is modelled by its exact value, a
  real number, and the operations \<open>+\<close> and \<open>-\<close> by the exact operation followed by
  rounding to the nearest double: 53 significant bits, a tie going to the even
  significand.  Comparisons are exact.  Overflow to \<open>Infinity\<close> (from \<open>2 ^ 1024\<close> on) is
  not modelled; below \<open>2 ^ -1022\<close> the sum or difference of two doubles is itself a
  double, so gradual underflow needs no case of its own.
\<close>

text \<open>The nearest integer, a tie going to the even one.\<close>

definition roundEven :: "real \<Rightarrow> int" where
  "roundEven x =
     (let f = \<lfloor>x\<rfloor>
      in if x - of_int f < 1 / 2 then f
         else if 1 / 2 < x - of_int f then f + 1
         else if even f then f else f + 1)"

text \<open>
  Rounding of a positive value: scaled by powers of two into \<open>[2 ^ 52, 2 ^ 53)\<close>, where
  the doubles are the integers.
\<close>

function roundPos :: "real \<Rightarrow> real" where
  "roundPos x =
     (if x \<le> 0 then 0
      else if 2 ^ 53 \<le> x then 2 * roundPos (x / 2)
      else if x < 2 ^ 52 then roundPos (2 * x) / 2
      else of_int (roundEven x))"
  by pat_completeness auto
termination
proof (relation "measure (\<lambda>x. if 2 ^ 53 \<le> x then nat \<lfloor>x\<rfloor> else if x < 2 ^ 52 then nat \<lceil>2 ^ 52 / x\<rceil> else 0)")
  show "wf (measure (\<lambda>x::real. if 2 ^ 53 \<le> x then nat \<lfloor>x\<rfloor> else if x < 2 ^ 52 then nat \<lceil>2 ^ 52 / x\<rceil> else 0))"
    by simp
next
  fix x :: real
  assume "\<not> x \<le> 0" and big: "2 ^ 53 \<le> x"
  have "x / 2 \<le> x - 1"
    using big by simp
  then have "\<lfloor>x / 2\<rfloor> \<le> \<lfloor>x - 1\<rfloor>"
    by (rule floor_mono)
  then have "\<lfloor>x / 2\<rfloor> < \<lfloor>x\<rfloor>"
    by simp
  moreover have "0 < \<lfloor>x\<rfloor>"
    using big by simp
  ultimately show "(x / 2, x) \<in> measure (\<lambda>x. if 2 ^ 53 \<le> x then nat \<lfloor>x\<rfloor> else if x < 2 ^ 52 then nat \<lceil>2 ^ 52 / x\<rceil> else 0)"
    using big by simp
next
  fix x :: real
  assume pos: "\<not> x \<le> 0" and "\<not> 2 ^ 53 \<le> x" and small: "x < 2 ^ 52"
  define y where "y = 2 ^ 52 / x"
  have one: "1 < y"
    using pos small by (simp add: y_def)
  then have "2 \<le> \<lceil>y\<rceil>"
    by linarith
  then have "2 \<le> real_of_int \<lceil>y\<rceil>"
    by linarith
  moreover have "y \<le> real_of_int \<lceil>y\<rceil>"
    by (rule le_of_int_ceiling)
  ultimately have "y / 2 \<le> real_of_int \<lceil>y\<rceil> - 1"
    by linarith
  then have "y / 2 \<le> real_of_int (\<lceil>y\<rceil> - 1)"
    by simp
  then have "\<lceil>y / 2\<rceil> \<le> \<lceil>y\<rceil> - 1"
    by (simp only: ceiling_le_iff)
  moreover have "2 ^ 52 / (2 * x) = y / 2"
    by (simp add: y_def)
  moreover have "0 < \<lceil>y\<rceil>"
    using one by linarith
  ultimately have "nat \<lceil>2 ^ 52 / (2 * x)\<rceil> < nat \<lceil>2 ^ 52 / x\<rceil>"
    unfolding y_def[symmetric] by linarith
  then show "(2 * x, x) \<in> measure (\<lambda>x. if 2 ^ 53 \<le> x then nat \<lfloor>x\<rfloor> else if x < 2 ^ 52 then nat \<lceil>2 ^ 52 / x\<rceil> else 0)"
    using pos small by simp
qed

declare roundPos.simps [simp del]

definition roundDouble :: "real \<Rightarrow> real" where
  "roundDouble x = (if x < 0 then - roundPos (- x) else roundPos x)"

definition addDouble :: "real \<Rightarrow> real \<Rightarrow> real" where
  "addDouble x y = roundDouble (x + y)"

definition subDouble :: "real \<Rightarrow> real \<Rightarrow> real" where
  "subDouble x y = roundDouble (x - y)"

lemma roundEven_of_int: "roundEven (of_int N) = N"
  by (simp add: roundEven_def)

lemma roundPos_exact_aux:
  "\<forall>N p. 0 \<le> N \<and> N < 2 ^ 53 \<and> x = of_int N / 2 ^ p \<longrightarrow> roundPos x = x"
proof (induction x rule: roundPos.induct)
  case (1 x)
  show ?case
  proof (intro allI impI)
    fix N :: int and p :: nat
    assume h: "0 \<le> N \<and> N < 2 ^ 53 \<and> x = of_int N / 2 ^ p"
    then have N: "0 \<le> N" "N < 2 ^ 53" and x: "x = of_int N / 2 ^ p"
      by simp_all
    have "x \<le> of_int N"
      using N(1) unfolding x by (simp add: divide_le_eq_1 mult_le_cancel_left1 field_simps)
    moreover have "real_of_int N < 2 ^ 53"
      using N(2) by (metis of_int_less_iff of_int_numeral of_int_power)
    ultimately have below: "\<not> 2 ^ 53 \<le> x"
      by linarith
    consider "x \<le> 0" | "0 < x" "x < 2 ^ 52" | "2 ^ 52 \<le> x"
      by linarith
    then show "roundPos x = x"
    proof cases
      case 1
      moreover have "0 \<le> x"
        using N(1) unfolding x by simp
      ultimately show ?thesis
        by (subst roundPos.simps) simp
    next
      case 2
      have "\<exists>N' p'. 0 \<le> N' \<and> N' < 2 ^ 53 \<and> 2 * x = of_int N' / 2 ^ p'"
      proof (cases p)
        case 0
        then have "real_of_int N < 2 ^ 52"
          using 2(2) x by simp
        then have "N < 2 ^ 52"
          by (metis of_int_less_iff of_int_numeral of_int_power)
        then have "0 \<le> 2 * N \<and> 2 * N < 2 ^ 53 \<and> 2 * x = of_int (2 * N) / 2 ^ 0"
          using N(1) x 0 by simp
        then show ?thesis
          by blast
      next
        case (Suc p')
        then have "0 \<le> N \<and> N < 2 ^ 53 \<and> 2 * x = of_int N / 2 ^ p'"
          using N x by simp
        then show ?thesis
          by blast
      qed
      then obtain N' p' where "0 \<le> N' \<and> N' < 2 ^ 53 \<and> 2 * x = of_int N' / 2 ^ p'"
        by blast
      moreover have "\<not> x \<le> 0"
        using 2(1) by simp
      note "1.IH"(2)[OF this below 2(2)]
      ultimately have "roundPos (2 * x) = 2 * x"
        by blast
      then show ?thesis
        using 2 below by (subst roundPos.simps) simp
    next
      case 3
      have "p = 0"
      proof (rule ccontr)
        assume "p \<noteq> 0"
        then obtain p' where "p = Suc p'"
          by (cases p) simp_all
        then have "(2::real) \<le> 2 ^ p"
          by simp
        moreover have "0 < x"
          using 3 by (smt (verit) zero_less_power)
        ultimately have "2 * x \<le> 2 ^ p * x"
          by simp
        also have "\<dots> = of_int N"
          unfolding x by simp
        finally have "x < 2 ^ 52"
          using \<open>real_of_int N < 2 ^ 53\<close> by simp
        then show False
          using 3 by simp
      qed
      then have "x = of_int N"
        using x by simp
      then show ?thesis
        using 3 below by (subst roundPos.simps) (simp add: roundEven_of_int)
    qed
  qed
qed

lemma roundDouble_exact:
  assumes "0 \<le> N" "N < 2 ^ 53"
  shows "roundDouble (of_int N / 2 ^ p) = of_int N / 2 ^ p"
proof -
  have "roundPos (of_int N / 2 ^ p) = of_int N / 2 ^ p"
    using roundPos_exact_aux[of "of_int N / 2 ^ p"] assms by blast
  moreover have "\<not> real_of_int N / 2 ^ p < 0"
    using assms(1) by (simp add: not_less)
  ultimately show ?thesis
    by (simp add: roundDouble_def)
qed

lemma roundEven_nonneg: "0 \<le> x \<Longrightarrow> 0 \<le> roundEven x"
  by (simp add: roundEven_def Let_def)

lemma roundPos_nonneg: "0 \<le> roundPos x"
proof (induction x rule: roundPos.induct)
  case (1 x)
  consider "x \<le> 0" | "0 < x" "2 ^ 53 \<le> x" | "0 < x" "\<not> 2 ^ 53 \<le> x" "x < 2 ^ 52"
    | "0 < x" "\<not> 2 ^ 53 \<le> x" "\<not> x < 2 ^ 52"
    by linarith
  then show ?case
  proof cases
    case 1
    then show ?thesis
      by (subst roundPos.simps) simp
  next
    case 2
    then have "\<not> x \<le> 0"
      by simp
    from "1.IH"(1)[OF this 2(2)] show ?thesis
      using 2 by (subst roundPos.simps) simp
  next
    case 3
    then have "\<not> x \<le> 0"
      by simp
    from "1.IH"(2)[OF this 3(2,3)] show ?thesis
      using 3 by (subst roundPos.simps) simp
  next
    case 4
    then have "0 \<le> roundEven x"
      by (intro roundEven_nonneg) simp
    then show ?thesis
      using 4 by (subst roundPos.simps) simp
  qed
qed

lemma roundDouble_nonneg: "0 \<le> x \<Longrightarrow> 0 \<le> roundDouble x"
  by (simp add: roundDouble_def roundPos_nonneg)

section \<open>Movement rule of the simulation tick (App.tsx, handleSimulationTick)\<close>

text \<open>
  The \<open>while (newAccumulator >= 1 && currentPath.length > 0)\<close> loop of the tick with its
  \<open>newAccumulator -= 1\<close>; \<open>trace\<close> is the path-trace set the popped cells are added to.
\<close>

fun moveLoop :: "real \<Rightarrow> Position \<Rightarrow> Position list \<Rightarrow> nat \<Rightarrow> Position set
    \<Rightarrow> real \<times> Position \<times> Position list \<times> nat \<times> Position set" where
  "moveLoop newAccumulator currentPos [] stepsMoved trace =
     (newAccumulator, currentPos, [], stepsMoved, trace)"
| "moveLoop newAccumulator currentPos (nextPos # rest) stepsMoved trace =
     (if newAccumulator \<ge> 1
      then moveLoop (subDouble newAccumulator 1) nextPos rest (stepsMoved + 1) (insert nextPos trace)
      else (newAccumulator, currentPos, nextPos # rest, stepsMoved, trace))"

text \<open>
  The body of the movement branch, entered with
  \<open>rider.movementAccumulator + rider.speed\<close>: the updated rider, the number of steps
  moved and the updated trace.
\<close>

definition moveRider :: "Rider \<Rightarrow> Position set \<Rightarrow> Rider \<times> nat \<times> Position set" where
  "moveRider rider trace =
     (case moveLoop (addDouble (movementAccumulator rider) (speed rider)) (pos rider) (pathQueue rider) 0 trace of
        (newAccumulator, currentPos, currentPath, stepsMoved, trace') \<Rightarrow>
          (if stepsMoved > 0
           then rider\<lparr>pos := currentPos, pathQueue := currentPath, movementAccumulator := newAccumulator\<rparr>
           else rider\<lparr>movementAccumulator := newAccumulator\<rparr>,
           stepsMoved, trace'))"

text \<open>
  The movement rule as one tick applies it to a rider: the branch is entered only while
  the queue is non-empty.
\<close>

definition movementRule :: "Rider \<Rightarrow> Rider" where
  "movementRule rider = (if length (pathQueue rider) > 0 then fst (moveRider rider {}) else rider)"

text \<open>The accumulator never goes negative, whatever the speed.\<close>

lemma moveLoop_nonneg:
  "0 \<le> a \<Longrightarrow> 0 \<le> fst (moveLoop a p q k t)"
proof (induction q arbitrary: a p k t)
  case Nil
  then show ?case by simp
next
  case (Cons x q)
  show ?case
  proof (cases "a \<ge> 1")
    case True
    then have "0 \<le> subDouble a 1"
      by (simp add: subDouble_def roundDouble_nonneg)
    from Cons.IH[OF this] show ?thesis
      using True by simp
  next
    case False
    then show ?thesis
      using Cons.prems by simp
  qed
qed

lemma movementRule_nonneg:
  assumes "0 \<le> movementAccumulator rider" "0 \<le> speed rider"
  shows "0 \<le> movementAccumulator (movementRule rider) \<and> speed (movementRule rider) = speed rider"
proof -
  have "0 \<le> addDouble (movementAccumulator rider) (speed rider)"
    using assms by (simp add: addDouble_def roundDouble_nonneg)
  from moveLoop_nonneg[OF this, of "pos rider" "pathQueue rider" 0 "{}"] show ?thesis
    using assms(1) by (cases "moveLoop (addDouble (movementAccumulator rider) (speed rider))
                                (pos rider) (pathQueue rider) 0 {}")
        (simp add: movementRule_def moveRider_def)
qed

lemma movement_accumulator_nonneg:
  assumes "0 \<le> movementAccumulator rider" "0 \<le> speed rider"
  shows "0 \<le> movementAccumulator ((movementRule ^^ k) rider)
         \<and> speed ((movementRule ^^ k) rider) = speed rider"
proof (induction k)
  case 0
  then show ?case
    using assms by simp
next
  case (Suc k)
  then show ?case
    using movementRule_nonneg[of "(movementRule ^^ k) rider"] assms(2) by simp
qed

lemma moveLoop_result:
  "0 \<le> N \<Longrightarrow> N < 2 ^ 53 \<Longrightarrow> a = of_int N / 2 ^ e \<Longrightarrow>
   (case moveLoop a p q k t of (a', p', q', k', t') \<Rightarrow>
      a' = a - real (min (nat \<lfloor>a\<rfloor>) (length q)) \<and> q' = drop (min (nat \<lfloor>a\<rfloor>) (length q)) q
      \<and> k' = k + min (nat \<lfloor>a\<rfloor>) (length q))"
proof (induction q arbitrary: N a p k t)
  case Nil
  then show ?case by simp
next
  case (Cons x q)
  have nonneg: "0 \<le> a"
    using Cons.prems by simp
  show ?case
  proof (cases "a \<ge> 1")
    case True
    then have fl: "nat \<lfloor>a\<rfloor> = Suc (nat \<lfloor>a - 1\<rfloor>)"
      by (smt (verit) Suc_nat_eq_nat_zadd1 floor_diff_one zero_le_floor)
    have grid: "a - 1 = of_int (N - 2 ^ e) / 2 ^ e"
      using Cons.prems(3) by (simp add: diff_divide_distrib)
    have "(2::real) ^ e \<le> of_int N"
      using True Cons.prems(3) by (simp add: pos_le_divide_eq)
    then have "real_of_int (2 ^ e) \<le> of_int N"
      by simp
    then have "2 ^ e \<le> N"
      by (simp only: of_int_le_iff)
    then have lo: "0 \<le> N - 2 ^ e"
      by simp
    have hi: "N - 2 ^ e < 2 ^ 53"
      using Cons.prems(2) by (smt (verit) zero_less_power)
    have exact: "subDouble a 1 = a - 1"
      unfolding subDouble_def grid using lo hi by (rule roundDouble_exact)
    from Cons.IH[OF lo hi grid, where p = x and k = "k + 1" and t = "insert x t"] show ?thesis
      using True by (simp add: fl exact split: prod.splits)
  next
    case False
    then have "nat \<lfloor>a\<rfloor> = 0"
      using nonneg by (simp add: floor_eq_iff)
    then show ?thesis
      using False by simp
  qed
qed

lemma movementRule_step:
  assumes "pathQueue rider \<noteq> []"
    and "movementAccumulator rider + speed rider = of_int N / 2 ^ e" "0 \<le> N" "N < 2 ^ 53"
  defines "j \<equiv> min (nat \<lfloor>movementAccumulator rider + speed rider\<rfloor>) (length (pathQueue rider))"
  shows "pathQueue (movementRule rider) = drop j (pathQueue rider)"
    and "movementAccumulator (movementRule rider) = movementAccumulator rider + speed rider - real j"
    and "speed (movementRule rider) = speed rider"
proof -
  have exact: "addDouble (movementAccumulator rider) (speed rider) = movementAccumulator rider + speed rider"
    unfolding addDouble_def assms(2) using assms(3,4) by (rule roundDouble_exact)
  obtain a' p' q' k' t' where run:
    "moveLoop (movementAccumulator rider + speed rider) (pos rider) (pathQueue rider) 0 {} = (a', p', q', k', t')"
    by (metis prod_cases5)
  have res: "a' = movementAccumulator rider + speed rider - real j" "q' = drop j (pathQueue rider)" "k' = j"
    using moveLoop_result[OF assms(3,4,2), where p = "pos rider" and q = "pathQueue rider" and k = 0 and t = "{}"] run
    by (simp_all add: j_def)
  show "pathQueue (movementRule rider) = drop j (pathQueue rider)"
    using assms(1) run res by (simp add: movementRule_def moveRider_def exact)
  show "movementAccumulator (movementRule rider) = movementAccumulator rider + speed rider - real j"
    using assms(1) run res by (simp add: movementRule_def moveRider_def exact)
  show "speed (movementRule rider) = speed rider"
    using assms(1) run res by (simp add: movementRule_def moveRider_def exact)
qed

lemma movementRule_idle: "pathQueue rider = [] \<Longrightarrow> movementRule rider = rider"
  by (simp add: movementRule_def)

lemma movement_ticks:
  assumes grid: "speed rider = of_int j / 2 ^ e" and j: "0 < j" "j \<le> 2 ^ 52" and e: "e \<le> 52"
    and a0: "movementAccumulator rider = 0"
  shows "speed ((movementRule ^^ k) rider) = speed rider \<and>
    (\<lfloor>real k * speed rider\<rfloor> < int (length (pathQueue rider)) \<longrightarrow>
       movementAccumulator ((movementRule ^^ k) rider) = real k * speed rider - of_int \<lfloor>real k * speed rider\<rfloor>
       \<and> pathQueue ((movementRule ^^ k) rider) = drop (nat \<lfloor>real k * speed rider\<rfloor>) (pathQueue rider)) \<and>
    (int (length (pathQueue rider)) \<le> \<lfloor>real k * speed rider\<rfloor> \<longrightarrow>
       pathQueue ((movementRule ^^ k) rider) = []
       \<and> 0 \<le> movementAccumulator ((movementRule ^^ k) rider)
       \<and> movementAccumulator ((movementRule ^^ k) rider) < max 1 (speed rider))"
proof (induction k)
  case 0
  then show ?case
    using a0 by (simp add: less_max_iff_disj)
next
  case (Suc k)
  define sp where "sp = speed rider"
  define n where "n = length (pathQueue rider)"
  define f where "f = \<lfloor>real k * sp\<rfloor>"
  define f' where "f' = \<lfloor>real (Suc k) * sp\<rfloor>"
  define R where "R = (movementRule ^^ k) rider"
  have sp_pos: "0 < sp"
    using grid j(1) by (simp add: sp_def)
  have sp_grid: "sp = of_int j / 2 ^ e"
    using grid by (simp add: sp_def)
  have f_nonneg: "0 \<le> f"
    using sp_pos by (simp add: f_def)
  have f_le: "f \<le> f'"
    unfolding f_def f'_def using sp_pos by (intro floor_mono) (simp add: algebra_simps)
  have IH_speed: "speed R = sp"
    and IH_run: "f < int n \<Longrightarrow> movementAccumulator R = real k * sp - of_int f \<and> pathQueue R = drop (nat f) (pathQueue rider)"
    and IH_done: "int n \<le> f \<Longrightarrow> pathQueue R = [] \<and> 0 \<le> movementAccumulator R \<and> movementAccumulator R < max 1 sp"
    using Suc.IH by (simp_all add: sp_def n_def f_def R_def)
  have next_R: "(movementRule ^^ Suc k) rider = movementRule R"
    by (simp add: R_def)
  show ?case
  proof (cases "int n \<le> f")
    case True
    then have "movementRule R = R"
      using IH_done by (simp add: movementRule_idle)
    moreover have "int n \<le> f'"
      using True f_le by simp
    ultimately show ?thesis
      using IH_done[OF True] IH_speed
      unfolding next_R sp_def[symmetric] n_def[symmetric] f'_def[symmetric] by simp
  next
    case False
    then have run: "f < int n"
      by simp
    have acc: "movementAccumulator R = real k * sp - of_int f"
      and que: "pathQueue R = drop (nat f) (pathQueue rider)"
      using IH_run[OF run] by simp_all
    have acc_bounds: "0 \<le> movementAccumulator R" "movementAccumulator R < 1"
      unfolding acc f_def by linarith+
    have len: "length (pathQueue R) = n - nat f"
      by (simp add: que n_def)
    have "nat f < n"
      using run f_nonneg by simp
    then have "0 < length (pathQueue R)"
      using len by simp
    then have nonempty: "pathQueue R \<noteq> []"
      by simp
    have total: "movementAccumulator R + speed R = real (Suc k) * sp - of_int f"
      by (simp add: acc IH_speed algebra_simps)
    have fl: "\<lfloor>movementAccumulator R + speed R\<rfloor> = f' - f"
      unfolding total f'_def by simp
    define N where "N = int (Suc k) * j - f * 2 ^ e"
    have on_grid: "movementAccumulator R + speed R = of_int N / 2 ^ e"
      unfolding total sp_grid N_def by (simp add: field_simps)
    have "0 \<le> real_of_int N / 2 ^ e"
      using acc_bounds(1) sp_pos IH_speed unfolding on_grid[symmetric] by simp
    then have "0 \<le> real_of_int N / 2 ^ e * 2 ^ e"
      by (intro mult_nonneg_nonneg) simp_all
    then have "0 \<le> real_of_int N"
      by simp
    then have N_lo: "0 \<le> N"
      by simp
    have "real_of_int N / 2 ^ e < 1 + real_of_int j / 2 ^ e"
      using acc_bounds(2) IH_speed unfolding on_grid[symmetric] sp_grid by simp
    then have "real_of_int N < 2 ^ e + real_of_int j"
      by (simp add: field_simps)
    then have "real_of_int N < real_of_int (2 ^ e + j)"
      by simp
    then have "N < 2 ^ e + j"
      by (simp only: of_int_less_iff)
    moreover have "(2::int) ^ e \<le> 2 ^ 52"
      using e by (intro power_increasing) simp_all
    ultimately have N_hi: "N < 2 ^ 53"
      using j(2) by simp
    define m where "m = min (nat \<lfloor>movementAccumulator R + speed R\<rfloor>) (length (pathQueue R))"
    have step: "pathQueue (movementRule R) = drop m (pathQueue R)"
      "movementAccumulator (movementRule R) = movementAccumulator R + speed R - real m"
      "speed (movementRule R) = speed R"
      using movementRule_step[OF nonempty on_grid N_lo N_hi] by (simp_all add: m_def)
    show ?thesis
    proof (cases "f' < int n")
      case True
      then have m_eq: "m = nat (f' - f)"
        using f_le f_nonneg by (simp add: m_def fl len)
      have "drop m (pathQueue R) = drop (nat f') (pathQueue rider)"
        using f_le f_nonneg by (simp add: que m_eq nat_diff_distrib' add.commute) 
      moreover have "movementAccumulator R + speed R - real m = real (Suc k) * sp - of_int f'"
        using f_le by (simp add: total m_eq)
      ultimately show ?thesis
        using True step IH_speed
        unfolding next_R sp_def[symmetric] n_def[symmetric] f'_def[symmetric] by simp
    next
      case False
      then have drained: "int n \<le> f'"
        by simp
      then have m_eq: "m = n - nat f"
        using run f_nonneg by (simp add: m_def fl len)
      have m_pos: "1 \<le> real m"
        using run f_nonneg m_eq by (simp add: nat_less_iff)
      have "drop m (pathQueue R) = []"
        by (simp add: m_eq len)
      moreover have "0 \<le> movementAccumulator R + speed R - real m"
      proof -
        have "real m = real n - of_int f"
          using run f_nonneg m_eq by (simp add: of_nat_diff nat_less_iff)
        moreover have "real n \<le> real (Suc k) * sp"
        proof -
          have "real_of_int (int n) \<le> real_of_int f'"
            using drained by (simp only: of_int_le_iff)
          also have "\<dots> \<le> real (Suc k) * sp"
            unfolding f'_def by (rule of_int_floor_le)
          finally show ?thesis by simp
        qed
        ultimately show ?thesis
          unfolding total by linarith
      qed
      moreover have "movementAccumulator R + speed R - real m < max 1 sp"
        using acc_bounds(2) m_pos IH_speed by linarith
      ultimately show ?thesis
        using drained step IH_speed
        unfolding next_R sp_def[symmetric] n_def[symmetric] f'_def[symmetric] by simp
    qed
  qed
qed

text \<open>One tick at given sums and differences: a cell is popped, or the rider waits.\<close>

lemma movementRule_pop:
  assumes "pathQueue rider = x # q"
    and "addDouble (movementAccumulator rider) (speed rider) = a" "1 \<le> a"
    and "subDouble a 1 = a'" "a' < 1"
  shows "pathQueue (movementRule rider) = q \<and> movementAccumulator (movementRule rider) = a'
         \<and> speed (movementRule rider) = speed rider"
  using assms by (cases q) (simp_all add: movementRule_def moveRider_def)

lemma movementRule_wait:
  assumes "pathQueue rider = x # q"
    and "addDouble (movementAccumulator rider) (speed rider) = a" "a < 1"
  shows "pathQueue (movementRule rider) = x # q \<and> movementAccumulator (movementRule rider) = a
         \<and> speed (movementRule rider) = speed rider"
  using assms by (simp add: movementRule_def moveRider_def)

subsection \<open>Claims about the movement rule\<close>

text \<open>
  C5 as stated fails in both halves.  The bound: a rider slower than one cell per tick
  piles up more than its speed before it moves; with speed 1/4 the accumulator is 1/2
  after the second tick.  The number of ticks: the additions are rounded, and with the
  double nearest to 0.9 as speed (\<open>8106479329266893 / 2 ^ 53\<close>, within the range of
  \<open>0.5 + Math.random()\<close>) and a queue of nine cells the accumulator is
  \<open>1 - 3 / 2 ^ 53\<close> after the tenth tick, one cell is still queued after
  \<open>ceil(9 / s) = 10\<close> ticks, and the queue is drained by the eleventh.
\<close>

theorem movement_counterexample:
  "movementAccumulator ((movementRule ^^ 2) ((placedRider ''r1'' \<lparr>r = 0, c = 0\<rparr> ''R1'' (1 / 4))\<lparr>pathQueue := [\<lparr>r = 0, c = 1\<rparr>]\<rparr>))
     = 1 / 2
   \<and> speed ((placedRider ''r1'' \<lparr>r = 0, c = 0\<rparr> ''R1'' (1 / 4))\<lparr>pathQueue := [\<lparr>r = 0, c = 1\<rparr>]\<rparr>) = 1 / 4
   \<and> movementAccumulator ((placedRider ''r1'' \<lparr>r = 0, c = 0\<rparr> ''R1'' (1 / 4))\<lparr>pathQueue := [\<lparr>r = 0, c = 1\<rparr>]\<rparr>) = 0
   \<and> \<lceil>real (length (cellsOf [(0, 1), (0, 2), (0, 3), (0, 4), (0, 5), (0, 6), (0, 7), (0, 8), (0, 9)]))
        / (8106479329266893 / 2 ^ 53)\<rceil> = 10
   \<and> pathQueue ((movementRule ^^ 10)
        ((placedRider ''r1'' \<lparr>r = 0, c = 0\<rparr> ''R1'' (8106479329266893 / 2 ^ 53))
           \<lparr>pathQueue := cellsOf [(0, 1), (0, 2), (0, 3), (0, 4), (0, 5), (0, 6), (0, 7), (0, 8), (0, 9)]\<rparr>))
       = [\<lparr>r = 0, c = 9\<rparr>]
   \<and> pathQueue ((movementRule ^^ 11)
        ((placedRider ''r1'' \<lparr>r = 0, c = 0\<rparr> ''R1'' (8106479329266893 / 2 ^ 53))
           \<lparr>pathQueue := cellsOf [(0, 1), (0, 2), (0, 3), (0, 4), (0, 5), (0, 6), (0, 7), (0, 8), (0, 9)]\<rparr>))
       = []"
proof -
  define sp :: real where "sp = 8106479329266893 / 2 ^ 53"
  define s0 where "s0 = (placedRider ''r1'' \<lparr>r = 0, c = 0\<rparr> ''R1'' (8106479329266893 / 2 ^ 53))
           \<lparr>pathQueue := cellsOf [(0, 1), (0, 2), (0, 3), (0, 4), (0, 5), (0, 6), (0, 7), (0, 8), (0, 9)]\<rparr>"
  have q0: "pathQueue s0 = [\<lparr>r = 0, c = 1\<rparr>, \<lparr>r = 0, c = 2\<rparr>, \<lparr>r = 0, c = 3\<rparr>, \<lparr>r = 0, c = 4\<rparr>, \<lparr>r = 0, c = 5\<rparr>, \<lparr>r = 0, c = 6\<rparr>, \<lparr>r = 0, c = 7\<rparr>, \<lparr>r = 0, c = 8\<rparr>, \<lparr>r = 0, c = 9\<rparr>]"
    by (simp add: s0_def cellsOf_def)
  have v0: "movementAccumulator s0 = 0"
    by (simp add: s0_def placedRider_def)
  have c0: "speed s0 = sp"
    by (simp add: s0_def sp_def placedRider_def)
  define s1 where "s1 = movementRule s0"
  have "addDouble (0) (8106479329266893 / 2 ^ 53) = 8106479329266893 / 9007199254740992"
    by (simp add: addDouble_def roundDouble_def roundPos.simps roundEven_def)
  then have sum1: "addDouble (movementAccumulator s0) (speed s0) = 8106479329266893 / 9007199254740992"
    unfolding v0 c0 sp_def .
  have "(8106479329266893 / 9007199254740992 :: real) < 1"
    by simp
  note movementRule_wait[OF q0 sum1 this]
  then have q1: "pathQueue s1 = [\<lparr>r = 0, c = 1\<rparr>, \<lparr>r = 0, c = 2\<rparr>, \<lparr>r = 0, c = 3\<rparr>, \<lparr>r = 0, c = 4\<rparr>, \<lparr>r = 0, c = 5\<rparr>, \<lparr>r = 0, c = 6\<rparr>, \<lparr>r = 0, c = 7\<rparr>, \<lparr>r = 0, c = 8\<rparr>, \<lparr>r = 0, c = 9\<rparr>]"
    and v1: "movementAccumulator s1 = 8106479329266893 / 9007199254740992"
    and c1: "speed s1 = sp"
    unfolding s1_def[symmetric] c0 by blast+
  define s2 where "s2 = movementRule s1"
  have "addDouble (8106479329266893 / 9007199254740992) (8106479329266893 / 2 ^ 53) = 8106479329266893 / 4503599627370496"
    by (simp add: addDouble_def roundDouble_def roundPos.simps roundEven_def)
  then have sum2: "addDouble (movementAccumulator s1) (speed s1) = 8106479329266893 / 4503599627370496"
    unfolding v1 c1 sp_def .
  have diff2: "subDouble (8106479329266893 / 4503599627370496) 1 = 3602879701896397 / 4503599627370496"
    by (simp add: subDouble_def roundDouble_def roundPos.simps roundEven_def)
  have "(1::real) \<le> 8106479329266893 / 4503599627370496" "(3602879701896397 / 4503599627370496 :: real) < 1"
    by simp_all
  note movementRule_pop[OF q1 sum2 this(1) diff2 this(2)]
  then have q2: "pathQueue s2 = [\<lparr>r = 0, c = 2\<rparr>, \<lparr>r = 0, c = 3\<rparr>, \<lparr>r = 0, c = 4\<rparr>, \<lparr>r = 0, c = 5\<rparr>, \<lparr>r = 0, c = 6\<rparr>, \<lparr>r = 0, c = 7\<rparr>, \<lparr>r = 0, c = 8\<rparr>, \<lparr>r = 0, c = 9\<rparr>]"
    and v2: "movementAccumulator s2 = 3602879701896397 / 4503599627370496"
    and c2: "speed s2 = sp"
    unfolding s2_def[symmetric] c1 by blast+
  define s3 where "s3 = movementRule s2"
  have "addDouble (3602879701896397 / 4503599627370496) (8106479329266893 / 2 ^ 53) = 1914029841632461 / 1125899906842624"
    by (simp add: addDouble_def roundDouble_def roundPos.simps roundEven_def)
  then have sum3: "addDouble (movementAccumulator s2) (speed s2) = 1914029841632461 / 1125899906842624"
    unfolding v2 c2 sp_def .
  have diff3: "subDouble (1914029841632461 / 1125899906842624) 1 = 788129934789837 / 1125899906842624"
    by (simp add: subDouble_def roundDouble_def roundPos.simps roundEven_def)
  have "(1::real) \<le> 1914029841632461 / 1125899906842624" "(788129934789837 / 1125899906842624 :: real) < 1"
    by simp_all
  note movementRule_pop[OF q2 sum3 this(1) diff3 this(2)]
  then have q3: "pathQueue s3 = [\<lparr>r = 0, c = 3\<rparr>, \<lparr>r = 0, c = 4\<rparr>, \<lparr>r = 0, c = 5\<rparr>, \<lparr>r = 0, c = 6\<rparr>, \<lparr>r = 0, c = 7\<rparr>, \<lparr>r = 0, c = 8\<rparr>, \<lparr>r = 0, c = 9\<rparr>]"
    and v3: "movementAccumulator s3 = 788129934789837 / 1125899906842624"
    and c3: "speed s3 = sp"
    unfolding s3_def[symmetric] c2 by blast+
  define s4 where "s4 = movementRule s3"
  have "addDouble (788129934789837 / 1125899906842624) (8106479329266893 / 2 ^ 53) = 3602879701896397 / 2251799813685248"
    by (simp add: addDouble_def roundDouble_def roundPos.simps roundEven_def)
  then have sum4: "addDouble (movementAccumulator s3) (speed s3) = 3602879701896397 / 2251799813685248"
    unfolding v3 c3 sp_def .
  have diff4: "subDouble (3602879701896397 / 2251799813685248) 1 = 1351079888211149 / 2251799813685248"
    by (simp add: subDouble_def roundDouble_def roundPos.simps roundEven_def)
  have "(1::real) \<le> 3602879701896397 / 2251799813685248" "(1351079888211149 / 2251799813685248 :: real) < 1"
    by simp_all
  note movementRule_pop[OF q3 sum4 this(1) diff4 this(2)]
  then have q4: "pathQueue s4 = [\<lparr>r = 0, c = 4\<rparr>, \<lparr>r = 0, c = 5\<rparr>, \<lparr>r = 0, c = 6\<rparr>, \<lparr>r = 0, c = 7\<rparr>, \<lparr>r = 0, c = 8\<rparr>, \<lparr>r = 0, c = 9\<rparr>]"
    and v4: "movementAccumulator s4 = 1351079888211149 / 2251799813685248"
    and c4: "speed s4 = sp"
    unfolding s4_def[symmetric] c3 by blast+
  define s5 where "s5 = movementRule s4"
  have "addDouble (1351079888211149 / 2251799813685248) (8106479329266893 / 2 ^ 53) = 3 / 2"
    by (simp add: addDouble_def roundDouble_def roundPos.simps roundEven_def)
  then have sum5: "addDouble (movementAccumulator s4) (speed s4) = 3 / 2"
    unfolding v4 c4 sp_def .
  have diff5: "subDouble (3 / 2) 1 = 1 / 2"
    by (simp add: subDouble_def roundDouble_def roundPos.simps roundEven_def)
  have "(1::real) \<le> 3 / 2" "(1 / 2 :: real) < 1"
    by simp_all
  note movementRule_pop[OF q4 sum5 this(1) diff5 this(2)]
  then have q5: "pathQueue s5 = [\<lparr>r = 0, c = 5\<rparr>, \<lparr>r = 0, c = 6\<rparr>, \<lparr>r = 0, c = 7\<rparr>, \<lparr>r = 0, c = 8\<rparr>, \<lparr>r = 0, c = 9\<rparr>]"
    and v5: "movementAccumulator s5 = 1 / 2"
    and c5: "speed s5 = sp"
    unfolding s5_def[symmetric] c4 by blast+
  define s6 where "s6 = movementRule s5"
  have "addDouble (1 / 2) (8106479329266893 / 2 ^ 53) = 3152519739159347 / 2251799813685248"
    by (simp add: addDouble_def roundDouble_def roundPos.simps roundEven_def)
  then have sum6: "addDouble (movementAccumulator s5) (speed s5) = 3152519739159347 / 2251799813685248"
    unfolding v5 c5 sp_def .
  have diff6: "subDouble (3152519739159347 / 2251799813685248) 1 = 900719925474099 / 2251799813685248"
    by (simp add: subDouble_def roundDouble_def roundPos.simps roundEven_def)
  have "(1::real) \<le> 3152519739159347 / 2251799813685248" "(900719925474099 / 2251799813685248 :: real) < 1"
    by simp_all
  note movementRule_pop[OF q5 sum6 this(1) diff6 this(2)]
  then have q6: "pathQueue s6 = [\<lparr>r = 0, c = 6\<rparr>, \<lparr>r = 0, c = 7\<rparr>, \<lparr>r = 0, c = 8\<rparr>, \<lparr>r = 0, c = 9\<rparr>]"
    and v6: "movementAccumulator s6 = 900719925474099 / 2251799813685248"
    and c6: "speed s6 = sp"
    unfolding s6_def[symmetric] c5 by blast+
  define s7 where "s7 = movementRule s6"
  have "addDouble (900719925474099 / 2251799813685248) (8106479329266893 / 2 ^ 53) = 1463669878895411 / 1125899906842624"
    by (simp add: addDouble_def roundDouble_def roundPos.simps roundEven_def)
  then have sum7: "addDouble (movementAccumulator s6) (speed s6) = 1463669878895411 / 1125899906842624"
    unfolding v6 c6 sp_def .
  have diff7: "subDouble (1463669878895411 / 1125899906842624) 1 = 337769972052787 / 1125899906842624"
    by (simp add: subDouble_def roundDouble_def roundPos.simps roundEven_def)
  have "(1::real) \<le> 1463669878895411 / 1125899906842624" "(337769972052787 / 1125899906842624 :: real) < 1"
    by simp_all
  note movementRule_pop[OF q6 sum7 this(1) diff7 this(2)]
  then have q7: "pathQueue s7 = [\<lparr>r = 0, c = 7\<rparr>, \<lparr>r = 0, c = 8\<rparr>, \<lparr>r = 0, c = 9\<rparr>]"
    and v7: "movementAccumulator s7 = 337769972052787 / 1125899906842624"
    and c7: "speed s7 = sp"
    unfolding s7_def[symmetric] c6 by blast+
  define s8 where "s8 = movementRule s7"
  have "addDouble (337769972052787 / 1125899906842624) (8106479329266893 / 2 ^ 53) = 2702159776422297 / 2251799813685248"
    by (simp add: addDouble_def roundDouble_def roundPos.simps roundEven_def)
  then have sum8: "addDouble (movementAccumulator s7) (speed s7) = 2702159776422297 / 2251799813685248"
    unfolding v7 c7 sp_def .
  have diff8: "subDouble (2702159776422297 / 2251799813685248) 1 = 450359962737049 / 2251799813685248"
    by (simp add: subDouble_def roundDouble_def roundPos.simps roundEven_def)
  have "(1::real) \<le> 2702159776422297 / 2251799813685248" "(450359962737049 / 2251799813685248 :: real) < 1"
    by simp_all
  note movementRule_pop[OF q7 sum8 this(1) diff8 this(2)]
  then have q8: "pathQueue s8 = [\<lparr>r = 0, c = 8\<rparr>, \<lparr>r = 0, c = 9\<rparr>]"
    and v8: "movementAccumulator s8 = 450359962737049 / 2251799813685248"
    and c8: "speed s8 = sp"
    unfolding s8_def[symmetric] c7 by blast+
  define s9 where "s9 = movementRule s8"
  have "addDouble (450359962737049 / 2251799813685248) (8106479329266893 / 2 ^ 53) = 619244948763443 / 562949953421312"
    by (simp add: addDouble_def roundDouble_def roundPos.simps roundEven_def)
  then have sum9: "addDouble (movementAccumulator s8) (speed s8) = 619244948763443 / 562949953421312"
    unfolding v8 c8 sp_def .
  have diff9: "subDouble (619244948763443 / 562949953421312) 1 = 56294995342131 / 562949953421312"
    by (simp add: subDouble_def roundDouble_def roundPos.simps roundEven_def)
  have "(1::real) \<le> 619244948763443 / 562949953421312" "(56294995342131 / 562949953421312 :: real) < 1"
    by simp_all
  note movementRule_pop[OF q8 sum9 this(1) diff9 this(2)]
  then have q9: "pathQueue s9 = [\<lparr>r = 0, c = 9\<rparr>]"
    and v9: "movementAccumulator s9 = 56294995342131 / 562949953421312"
    and c9: "speed s9 = sp"
    unfolding s9_def[symmetric] c8 by blast+
  define s10 where "s10 = movementRule s9"
  have "addDouble (56294995342131 / 562949953421312) (8106479329266893 / 2 ^ 53) = 9007199254740989 / 9007199254740992"
    by (simp add: addDouble_def roundDouble_def roundPos.simps roundEven_def)
  then have sum10: "addDouble (movementAccumulator s9) (speed s9) = 9007199254740989 / 9007199254740992"
    unfolding v9 c9 sp_def .
  have "(9007199254740989 / 9007199254740992 :: real) < 1"
    by simp
  note movementRule_wait[OF q9 sum10 this]
  then have q10: "pathQueue s10 = [\<lparr>r = 0, c = 9\<rparr>]"
    and v10: "movementAccumulator s10 = 9007199254740989 / 9007199254740992"
    and c10: "speed s10 = sp"
    unfolding s10_def[symmetric] c9 by blast+
  define s11 where "s11 = movementRule s10"
  have "addDouble (9007199254740989 / 9007199254740992) (8106479329266893 / 2 ^ 53) = 8556839292003941 / 4503599627370496"
    by (simp add: addDouble_def roundDouble_def roundPos.simps roundEven_def)
  then have sum11: "addDouble (movementAccumulator s10) (speed s10) = 8556839292003941 / 4503599627370496"
    unfolding v10 c10 sp_def .
  have diff11: "subDouble (8556839292003941 / 4503599627370496) 1 = 4053239664633445 / 4503599627370496"
    by (simp add: subDouble_def roundDouble_def roundPos.simps roundEven_def)
  have "(1::real) \<le> 8556839292003941 / 4503599627370496" "(4053239664633445 / 4503599627370496 :: real) < 1"
    by simp_all
  note movementRule_pop[OF q10 sum11 this(1) diff11 this(2)]
  then have q11: "pathQueue s11 = []"
    and v11: "movementAccumulator s11 = 4053239664633445 / 4503599627370496"
    and c11: "speed s11 = sp"
    unfolding s11_def[symmetric] c10 by blast+
  have "(movementRule ^^ 10) s0 = s10"
    by (simp add: eval_nat_numeral s1_def s2_def s3_def s4_def s5_def s6_def s7_def s8_def s9_def s10_def)
  then have ten: "pathQueue ((movementRule ^^ 10) s0) = [\<lparr>r = 0, c = 9\<rparr>]"
    using q10 by simp
  have "(movementRule ^^ 11) s0 = s11"
    by (simp add: eval_nat_numeral s1_def s2_def s3_def s4_def s5_def s6_def s7_def s8_def s9_def s10_def s11_def)
  then have eleven: "pathQueue ((movementRule ^^ 11) s0) = []"
    using q11 by simp
  have quarter: "movementAccumulator ((movementRule ^^ 2) ((placedRider ''r1'' \<lparr>r = 0, c = 0\<rparr> ''R1'' (1 / 4))\<lparr>pathQueue := [\<lparr>r = 0, c = 1\<rparr>]\<rparr>)) = 1 / 2"
    by (simp add: numeral_2_eq_2 movementRule_def moveRider_def placedRider_def
        addDouble_def roundDouble_def roundPos.simps roundEven_def)
  have ticks: "\<lceil>real (length (cellsOf [(0, 1), (0, 2), (0, 3), (0, 4), (0, 5), (0, 6), (0, 7), (0, 8), (0, 9)])) / (8106479329266893 / 2 ^ 53)\<rceil> = (10::int)"
    by (simp add: cellsOf_def ceiling_eq_iff)
  show ?thesis
    using ten eleven quarter ticks unfolding s0_def by (simp add: placedRider_def)
qed

text \<open>
  C5 (amended).  For a rider whose speed \<open>s > 0\<close> is a multiple \<open>j / 2 ^ e\<close> of a power
  of two with \<open>j \<le> 2 ^ 52\<close> and \<open>e \<le> 52\<close> (such as 0.5, 1, 1.5 and 2, where no addition
  of the rule is rounded), and a queue of \<open>n\<close> cells that starts from accumulator 0 and is
  never interrupted: the queue is empty after \<open>k\<close> ticks exactly when
  \<open>k \<ge> ceil(n / s)\<close>, so it is drained in exactly \<open>ceil(n / s)\<close> ticks; and after every
  tick the accumulator is never negative and stays below \<open>max 1 s\<close> (so below \<open>s\<close> when
  \<open>s \<ge> 1\<close>).
\<close>

theorem movement_drain:
  assumes "speed rider = of_int j / 2 ^ e" and "0 < j" and "j \<le> 2 ^ 52" and "e \<le> 52"
    and "movementAccumulator rider = 0"
  shows "(pathQueue ((movementRule ^^ k) rider) = []
            \<longleftrightarrow> \<lceil>real (length (pathQueue rider)) / speed rider\<rceil> \<le> int k)
         \<and> 0 \<le> movementAccumulator ((movementRule ^^ k) rider)
         \<and> movementAccumulator ((movementRule ^^ k) rider) < max 1 (speed rider)"
proof -
  have positive: "0 < speed rider"
    using assms(1,2) by simp
  define n where "n = length (pathQueue rider)"
  define f where "f = \<lfloor>real k * speed rider\<rfloor>"
  have ticks: "f < int n \<Longrightarrow>
       movementAccumulator ((movementRule ^^ k) rider) = real k * speed rider - of_int f
       \<and> pathQueue ((movementRule ^^ k) rider) = drop (nat f) (pathQueue rider)"
    and fin: "int n \<le> f \<Longrightarrow>
       pathQueue ((movementRule ^^ k) rider) = []
       \<and> 0 \<le> movementAccumulator ((movementRule ^^ k) rider)
       \<and> movementAccumulator ((movementRule ^^ k) rider) < max 1 (speed rider)"
    using movement_ticks[OF assms, of k] by (simp_all add: n_def f_def)
  have iff: "int n \<le> f \<longleftrightarrow> \<lceil>real n / speed rider\<rceil> \<le> int k"
  proof -
    have "int n \<le> f \<longleftrightarrow> real n \<le> real k * speed rider"
      unfolding f_def by (simp add: le_floor_iff)
    also have "\<dots> \<longleftrightarrow> real n / speed rider \<le> real k"
      using positive by (simp add: pos_divide_le_eq)
    also have "\<dots> \<longleftrightarrow> \<lceil>real n / speed rider\<rceil> \<le> int k"
      by (simp add: ceiling_le_iff)
    finally show ?thesis .
  qed
  show ?thesis
  proof (cases "int n \<le> f")
    case True
    then show ?thesis
      using fin iff by (simp add: n_def)
  next
    case False
    then have run: "f < int n"
      by simp
    have "0 \<le> f"
      using positive by (simp add: f_def)
    then have "nat f < n"
      using run by simp
    then have "pathQueue ((movementRule ^^ k) rider) \<noteq> []"
      using ticks[OF run] by (simp add: n_def)
    moreover have "0 \<le> real k * speed rider - of_int f" "real k * speed rider - of_int f < 1"
      unfolding f_def by linarith+
    ultimately show ?thesis
      using ticks[OF run] False iff by (simp add: n_def)
  qed
qed

theorem movement_drain_witness:
  "(pathQueue ((movementRule ^^ 2)
        ((placedRider ''r1'' \<lparr>r = 0, c = 0\<rparr> ''R1'' (3 / 2))\<lparr>pathQueue := [\<lparr>r = 0, c = 1\<rparr>, \<lparr>r = 0, c = 2\<rparr>]\<rparr>)) = []
      \<longleftrightarrow> \<lceil>real (length [\<lparr>r = 0, c = 1\<rparr>, \<lparr>r = 0, c = (2::int)\<rparr>]) / (3 / 2)\<rceil> \<le> int 2)
   \<and> 0 \<le> movementAccumulator ((movementRule ^^ 2)
        ((placedRider ''r1'' \<lparr>r = 0, c = 0\<rparr> ''R1'' (3 / 2))\<lparr>pathQueue := [\<lparr>r = 0, c = 1\<rparr>, \<lparr>r = 0, c = 2\<rparr>]\<rparr>))
   \<and> movementAccumulator ((movementRule ^^ 2)
        ((placedRider ''r1'' \<lparr>r = 0, c = 0\<rparr> ''R1'' (3 / 2))\<lparr>pathQueue := [\<lparr>r = 0, c = 1\<rparr>, \<lparr>r = 0, c = 2\<rparr>]\<rparr>))
       < max 1 (3 / 2)"
proof -
  have fast: "speed ((placedRider ''r1'' \<lparr>r = 0, c = 0\<rparr> ''R1'' (3 / 2))\<lparr>pathQueue := [\<lparr>r = 0, c = 1\<rparr>, \<lparr>r = 0, c = 2\<rparr>]\<rparr>)
      = of_int 3 / 2 ^ 1"
    by (simp add: placedRider_def)
  have fresh: "movementAccumulator ((placedRider ''r1'' \<lparr>r = 0, c = 0\<rparr> ''R1'' (3 / 2))\<lparr>pathQueue := [\<lparr>r = 0, c = 1\<rparr>, \<lparr>r = 0, c = 2\<rparr>]\<rparr>) = 0"
    by (simp add: placedRider_def)
  show ?thesis
    using movement_drain[OF fast _ _ _ fresh, of 2] by (simp add: placedRider_def)
qed

section \<open>Dispatcher (App.tsx, createOrder)\<close>

text \<open>
  The React state of the application component that the dispatcher and the tick read and
  write.  \<open>autoOrderRef\<close> is the time stamp kept in a ref.
\<close>

datatype Scenario = SANDBOX | DEMO_ASTAR | DEMO_HUNGARIAN | DEMO_TSP | DEMO_FAIRNESS

record World =
  riders :: "Rider list"
  orders :: "Order list"
  hotels :: "Entity list"
  homes :: "Entity list"
  walls :: "Position set"
  algorithm :: Algorithm
  scenario :: Scenario
  fairnessMode :: bool
  fairnessAlpha :: real
  pathTrace :: "Position set"
  distanceTraveled :: int
  statusMessage :: string
  autoOrderRef :: int

text \<open>
  The one way these functions can fail: reading a property of \<open>undefined\<close>.
\<close>

datatype Failure = TypeError

text \<open>Decimal printing of an integer, as a template string does it.\<close>

definition digitChar :: "nat \<Rightarrow> char" where
  "digitChar n = ''0123456789'' ! n"

function showNat :: "nat \<Rightarrow> string" where
  "showNat n = (if n < 10 then [digitChar n] else showNat (n div 10) @ [digitChar (n mod 10)])"
  by pat_completeness auto
termination
  by (relation "measure (\<lambda>n. n)") (auto intro: div_less_dividend)

definition showInt :: "int \<Rightarrow> string" where
  "showInt i = (if i < 0 then CHR ''-'' # showNat (nat (- i)) else showNat (nat i))"

definition BATCH_DISTANCE_THRESHOLD :: int where
  "BATCH_DISTANCE_THRESHOLD = 8"

text \<open>
  The order \<open>createOrder\<close> builds; the id comes from \<open>crypto.randomUUID()\<close> and the time
  stamp from the clock, both passed in.
\<close>

definition freshOrder :: "string \<Rightarrow> string \<Rightarrow> string \<Rightarrow> string \<Rightarrow> Order" where
  "freshOrder newOrderId home_id hotel_id clock =
     \<lparr>Order.id = newOrderId, homeId = home_id, hotelId = hotel_id, riderId = None,
      Order.status = COOKING, cookingTimeRemainingMs = COOKING_TIME_MS, timestamp = clock,
      pickupTime = None, actualDeliveryTimeMs = None, blocksCovered = None\<rparr>"

definition activeRidersFor :: "Rider list \<Rightarrow> string \<Rightarrow> Rider list" where
  "activeRidersFor rs hotel_id =
     filter (\<lambda>x. (Rider.status x = MOVING_TO_HOTEL \<or> Rider.status x = WAITING_FOR_FOOD)
                  \<and> targetEntityId x = Some hotel_id) rs"

text \<open>
  The two nested loops that look for the rider to batch onto: \<open>best\<close> is the pair of
  \<open>bestRider\<close> and \<open>minDetour\<close> (initially \<open>null\<close> and \<open>Infinity\<close>).
\<close>

definition considerOrder :: "Entity list \<Rightarrow> Entity \<Rightarrow> Rider \<Rightarrow> Order
    \<Rightarrow> Rider option \<times> int option \<Rightarrow> Rider option \<times> int option" where
  "considerOrder hs home rider existingOrder best =
     (case find (\<lambda>h. Entity.id h = homeId existingOrder) hs of
        None \<Rightarrow> best
      | Some existingHome \<Rightarrow>
          (let dist = getManhattanDistance (pos existingHome) (pos home)
           in if dist \<le> BATCH_DISTANCE_THRESHOLD
              then (if belowMin dist (snd best) then (Some rider, Some dist) else best)
              else best))"

definition considerRider :: "Order list \<Rightarrow> Entity list \<Rightarrow> Entity \<Rightarrow> Rider
    \<Rightarrow> Rider option \<times> int option \<Rightarrow> Rider option \<times> int option" where
  "considerRider os hs home rider best =
     fold (considerOrder hs home rider)
       (filter (\<lambda>ord. Order.id ord \<in> set (assignedOrderIds rider)) os) best"

text \<open>
  \<open>createOrder(homeId, hotelId)\<close>.  The fairness branch calls a three-argument
  \<open>solveAssignment\<close> whose code is not in the repository's \<open>utils/algorithms.ts\<close>; it is
  the parameter \<open>weightedAssignment\<close>.  An index it returns beyond the idle riders makes
  \<open>chosenRider\<close> undefined, and reading its id fails before any state is written.
\<close>

definition createOrder ::
  "(Rider list \<Rightarrow> Position list \<Rightarrow> real \<Rightarrow> AssignmentResult list)
    \<Rightarrow> string \<Rightarrow> string \<Rightarrow> string \<Rightarrow> string \<Rightarrow> World \<Rightarrow> Failure + World" where
  "createOrder weightedAssignment newOrderId clock home_id hotel_id w =
     (case (find (\<lambda>h. Entity.id h = home_id) (homes w), find (\<lambda>h. Entity.id h = hotel_id) (hotels w)) of
        (Some home, Some hotel) \<Rightarrow>
          (let newOrder = freshOrder newOrderId home_id hotel_id clock;
               activeRidersForHotel = activeRidersFor (riders w) hotel_id
           in case fold (considerRider (orders w) (homes w) home) activeRidersForHotel (None, None) of
                (Some bestRider, minDetour) \<Rightarrow>
                  Inr (w\<lparr>statusMessage := ''Smart Batch: Assgn to '' @ label bestRider @ '' (Detour: ''
                                             @ (case minDetour of None \<Rightarrow> ''Infinity'' | Some d \<Rightarrow> showInt d) @ '')'',
                         riders := map (\<lambda>x. if Entity.id x = Entity.id bestRider
                                               then x\<lparr>assignedOrderIds := assignedOrderIds x @ [newOrderId],
                                                      color := RIDER_BUSY\<rparr>
                                               else x) (riders w),
                         orders := orders w @ [newOrder\<lparr>riderId := Some (Entity.id bestRider)\<rparr>]\<rparr>)
              | (None, minDetour) \<Rightarrow>
                  (let idleRiders = filter (\<lambda>x. Rider.status x = IDLE) (riders w)
                   in if length idleRiders = 0
                      then (case activeRidersForHotel of
                              fallbackRider # others \<Rightarrow>
                                Inr (w\<lparr>statusMessage := ''High Demand: Queued with '' @ label fallbackRider,
                                       riders := map (\<lambda>x. if Entity.id x = Entity.id fallbackRider
                                                             then x\<lparr>assignedOrderIds := assignedOrderIds x @ [newOrderId]\<rparr>
                                                             else x) (riders w),
                                       orders := orders w @ [newOrder\<lparr>riderId := Some (Entity.id fallbackRider)\<rparr>]\<rparr>)
                            | [] \<Rightarrow>
                                Inr (w\<lparr>statusMessage := ''No riders available. Order queued.'',
                                       orders := orders w @ [newOrder]\<rparr>))
                      else
                        (case (if fairnessMode w
                               then (case weightedAssignment idleRiders [pos hotel] (fairnessAlpha w * 1) of
                                       res # rest \<Rightarrow>
                                         (if riderIndex res < length idleRiders
                                          then Some (idleRiders ! riderIndex res) else None)
                                     | [] \<Rightarrow> Some (idleRiders ! 0))
                               else Some (sort_key (\<lambda>x. getManhattanDistance (pos x) (pos hotel)) idleRiders ! 0)) of
                           None \<Rightarrow> Inl TypeError
                         | Some chosenRider \<Rightarrow>
                             (case findPath (pos chosenRider) (pos hotel) (walls w) (algorithm w) of
                                None \<Rightarrow>
                                  Inr (w\<lparr>statusMessage := ''Error: '' @ label chosenRider @ '' cannot reach '' @ label hotel\<rparr>)
                              | Some pathToHotel \<Rightarrow>
                                  Inr (w\<lparr>statusMessage := ''Dispatching '' @ label chosenRider @ '' to '' @ label hotel @ ''.'',
                                         riders := map (\<lambda>x. if Entity.id x = Entity.id chosenRider
                                                               then x\<lparr>Rider.status := MOVING_TO_HOTEL,
                                                                      targetEntityId := Some hotel_id,
                                                                      assignedOrderIds := [newOrderId],
                                                                      pathQueue := tl (path pathToHotel),
                                                                      color := RIDER_BUSY\<rparr>
                                                               else x) (riders w),
                                         orders := orders w @ [newOrder\<lparr>riderId := Some (Entity.id chosenRider)\<rparr>]\<rparr>)))))
      | _ \<Rightarrow> Inr w)"

text \<open>A hotel or home as \<open>handleCellClick\<close> places it.\<close>

definition placedEntity :: "string \<Rightarrow> EntityType \<Rightarrow> Position \<Rightarrow> string \<Rightarrow> string \<Rightarrow> Entity" where
  "placedEntity eid kind p lbl col = \<lparr>Entity.id = eid, type = kind, pos = p, label = lbl, color = col\<rparr>"

section \<open>Simulation tick (App.tsx, handleSimulationTick)\<close>

text \<open>
  What one tick takes from outside the state: the clock (\<open>Date.now()\<close>), and for the
  automatic order of the fairness demo a random number, a fresh id and a time string.
\<close>

record TickEnv =
  now :: int
  random :: real
  randomUUID :: string
  clock :: string

text \<open>
  The locals of one tick.  \<open>nextOrders\<close> is the mapped copy of the orders; the order
  objects that were not \<open>COOKING\<close> are shared between the copy and the array held by the
  state, so a write to a property of such an object shows in both.  \<open>prevOrders\<close> is the
  state's array as seen through that sharing, \<open>sharedObj\<close> tells which slots are shared,
  and \<open>ordersSet\<close> tells whether \<open>setOrders(nextOrders)\<close> has been called.  \<open>thrown\<close>
  records a \<open>TypeError\<close>, after which nothing more of the tick runs.
\<close>

record TickAcc =
  nextOrders :: "Order list"
  prevOrders :: "Order list"
  sharedObj :: "bool list"
  ordersSet :: bool
  ridersChanged :: bool
  pathTraceChanged :: bool
  nextPathTrace :: "Position set"
  distanceAcc :: int
  messageAcc :: string
  thrown :: bool

text \<open>Step 1 of the tick, per order, and whether it flags \<open>ordersChanged\<close>.\<close>

definition cook :: "Order \<Rightarrow> Order" where
  "cook ord =
     (if Order.status ord = COOKING
      then (let newTime = max 0 (cookingTimeRemainingMs ord - DELAY_MS)
            in ord\<lparr>cookingTimeRemainingMs := newTime,
                   Order.status := (if newTime = 0 then READY else COOKING)\<rparr>)
      else ord)"

definition cookChanged :: "Order \<Rightarrow> bool" where
  "cookChanged ord \<longleftrightarrow>
     Order.status ord = COOKING \<and> max 0 (cookingTimeRemainingMs ord - DELAY_MS) \<noteq> cookingTimeRemainingMs ord"

text \<open>\<open>Array.prototype.findIndex\<close>, with \<open>None\<close> for -1.\<close>

fun findIndex :: "('a \<Rightarrow> bool) \<Rightarrow> 'a list \<Rightarrow> nat option" where
  "findIndex P [] = None"
| "findIndex P (x # xs) = (if P x then Some 0 else map_option Suc (findIndex P xs))"

text \<open>
  Writing a property of the order object in slot \<open>i\<close> of \<open>nextOrders\<close>, and putting a new
  object into slot \<open>i\<close>.
\<close>

definition mutateOrder :: "nat \<Rightarrow> (Order \<Rightarrow> Order) \<Rightarrow> TickAcc \<Rightarrow> TickAcc" where
  "mutateOrder i f acc =
     acc\<lparr>nextOrders := (nextOrders acc)[i := f (nextOrders acc ! i)],
         prevOrders := (if i < length (prevOrders acc) \<and> i < length (sharedObj acc) \<and> sharedObj acc ! i
                        then (prevOrders acc)[i := f (prevOrders acc ! i)]
                        else prevOrders acc)\<rparr>"

definition replaceOrder :: "nat \<Rightarrow> Order \<Rightarrow> TickAcc \<Rightarrow> TickAcc" where
  "replaceOrder i ord acc =
     acc\<lparr>nextOrders := (nextOrders acc)[i := ord], sharedObj := (sharedObj acc)[i := False]\<rparr>"

definition stampPickup :: "int \<Rightarrow> string \<Rightarrow> TickAcc \<Rightarrow> TickAcc" where
  "stampPickup t oid acc =
     (case findIndex (\<lambda>no. Order.id no = oid) (nextOrders acc) of
        None \<Rightarrow> acc
      | Some idx \<Rightarrow> mutateOrder idx (\<lambda>ord. ord\<lparr>pickupTime := Some t\<rparr>) acc)"

text \<open>
  The nearest-neighbour loop of a waiting rider: sort the remaining targets by distance
  from the current position, take the first, route to it, and skip the leg when there is
  no route.
\<close>

function nearestNeighbour :: "Position set \<Rightarrow> Algorithm \<Rightarrow> Position \<Rightarrow> (string \<times> Entity) list
    \<Rightarrow> Position list \<Rightarrow> string list \<Rightarrow> Position list \<times> string list" where
  "nearestNeighbour ws alg currentPos remainingTargets calculatedPath calculatedQueue =
     (case sort_key (\<lambda>t. getManhattanDistance currentPos (pos (snd t))) remainingTargets of
        [] \<Rightarrow> (calculatedPath, calculatedQueue)
      | nextTarget # rest \<Rightarrow>
          (case findPath currentPos (pos (snd nextTarget)) ws alg of
             Some legPath \<Rightarrow>
               nearestNeighbour ws alg (pos (snd nextTarget)) rest
                 (calculatedPath @ tl (path legPath)) (calculatedQueue @ [fst nextTarget])
           | None \<Rightarrow>
               nearestNeighbour ws alg currentPos rest calculatedPath (calculatedQueue @ [fst nextTarget])))"
  by pat_completeness auto
termination
proof (relation "measure (\<lambda>(ws, alg, currentPos, remainingTargets, calculatedPath, calculatedQueue).
                            length remainingTargets)")
  show "wf (measure (\<lambda>(ws, alg, currentPos, remainingTargets, calculatedPath, calculatedQueue).
                            length remainingTargets))"
    by simp
next
  fix ws :: "Position set" and alg :: Algorithm and currentPos :: Position
    and remainingTargets :: "(string \<times> Entity) list" and calculatedPath :: "Position list"
    and calculatedQueue :: "string list" and nextTarget :: "string \<times> Entity"
    and rest :: "(string \<times> Entity) list" and legPath :: PathResult
  assume "sort_key (\<lambda>t. getManhattanDistance currentPos (pos (snd t))) remainingTargets = nextTarget # rest"
  then have "length remainingTargets = length (nextTarget # rest)"
    using length_sort[of "\<lambda>t. getManhattanDistance currentPos (pos (snd t))" remainingTargets] by simp
  then show "((ws, alg, pos (snd nextTarget), rest, calculatedPath @ tl (path legPath),
               calculatedQueue @ [fst nextTarget]),
              (ws, alg, currentPos, remainingTargets, calculatedPath, calculatedQueue))
             \<in> measure (\<lambda>(ws, alg, currentPos, remainingTargets, calculatedPath, calculatedQueue).
                            length remainingTargets)"
    by simp
next
  fix ws :: "Position set" and alg :: Algorithm and currentPos :: Position
    and remainingTargets :: "(string \<times> Entity) list" and calculatedPath :: "Position list"
    and calculatedQueue :: "string list" and nextTarget :: "string \<times> Entity"
    and rest :: "(string \<times> Entity) list"
  assume "sort_key (\<lambda>t. getManhattanDistance currentPos (pos (snd t))) remainingTargets = nextTarget # rest"
  then have "length remainingTargets = length (nextTarget # rest)"
    using length_sort[of "\<lambda>t. getManhattanDistance currentPos (pos (snd t))" remainingTargets] by simp
  then show "((ws, alg, currentPos, rest, calculatedPath, calculatedQueue @ [fst nextTarget]),
              (ws, alg, currentPos, remainingTargets, calculatedPath, calculatedQueue))
             \<in> measure (\<lambda>(ws, alg, currentPos, remainingTargets, calculatedPath, calculatedQueue).
                            length remainingTargets)"
    by simp
qed

text \<open>
  \<open>homes.find(...)!\<close> may be undefined; reading \<open>.pos\<close> of it then fails.  With two or
  more targets the sort comparator reads every target's home, with one target the call of
  \<open>findPath\<close> does, so the loop fails exactly when some home is missing.
\<close>

fun allDefined :: "('a \<times> 'b option) list \<Rightarrow> ('a \<times> 'b) list option" where
  "allDefined [] = Some []"
| "allDefined ((a, None) # xs) = None"
| "allDefined ((a, Some b) # xs) = map_option ((#) (a, b)) (allDefined xs)"

text \<open>
  Marking the order in slot \<open>orderIdx\<close> delivered: the new object with its statistics,
  put into the slot, followed by \<open>setOrders(nextOrders)\<close>.
\<close>

definition deliveredCopy :: "int \<Rightarrow> Entity list \<Rightarrow> Entity list \<Rightarrow> Order \<Rightarrow> Order" where
  "deliveredCopy t hs ds ord =
     (let o1 = ord\<lparr>Order.status := DELIVERED\<rparr>;
          o2 = (case pickupTime o1 of
                  Some picked \<Rightarrow> if picked \<noteq> 0 then o1\<lparr>actualDeliveryTimeMs := Some (t - picked)\<rparr> else o1
                | None \<Rightarrow> o1)
      in case (find (\<lambda>h. Entity.id h = hotelId o2) hs, find (\<lambda>h. Entity.id h = homeId o2) ds) of
           (Some hotel, Some home) \<Rightarrow>
             o2\<lparr>blocksCovered := Some (getManhattanDistance (pos hotel) (pos home))\<rparr>
         | _ \<Rightarrow> o2)"

definition markDelivered :: "int \<Rightarrow> Entity list \<Rightarrow> Entity list \<Rightarrow> nat \<Rightarrow> TickAcc \<Rightarrow> TickAcc" where
  "markDelivered t hs ds orderIdx acc =
     (replaceOrder orderIdx (deliveredCopy t hs ds (nextOrders acc ! orderIdx)) acc)
       \<lparr>ordersSet := True, ridersChanged := True\<rparr>"

text \<open>The branches of the rider state machine, in the order of the source.\<close>

definition startDelivery :: "int \<Rightarrow> World \<Rightarrow> Rider \<Rightarrow> Order list \<Rightarrow> TickAcc \<Rightarrow> Rider \<times> TickAcc" where
  "startDelivery t w rider myOrders acc =
     (case allDefined (map (\<lambda>ord. (Order.id ord, find (\<lambda>h. Entity.id h = homeId ord) (homes w))) myOrders) of
        None \<Rightarrow> (rider, acc\<lparr>thrown := True\<rparr>)
      | Some homeTargets \<Rightarrow>
          (case nearestNeighbour (walls w) (algorithm w) (pos rider) homeTargets [] [] of
             (calculatedPath, calculatedQueue) \<Rightarrow>
               (rider\<lparr>Rider.status := DELIVERING, pathQueue := calculatedPath,
                      deliveryQueue := Some calculatedQueue, targetEntityId := None\<rparr>,
                (fold (\<lambda>ord. stampPickup t (Order.id ord)) myOrders acc)\<lparr>ridersChanged := True\<rparr>)))"

definition deliverHere :: "int \<Rightarrow> World \<Rightarrow> Rider \<Rightarrow> TickAcc \<Rightarrow> Rider \<times> TickAcc" where
  "deliverHere t w rider acc =
     (let myActiveOrders = filter (\<lambda>ord. Order.id ord \<in> set (assignedOrderIds rider)
                                         \<and> Order.status ord \<noteq> DELIVERED) (nextOrders acc);
          deliveredOrder = find (\<lambda>ord. case find (\<lambda>home. Entity.id home = homeId ord) (homes w) of
                                          None \<Rightarrow> False
                                        | Some h \<Rightarrow> r (pos h) = r (pos rider) \<and> c (pos h) = c (pos rider))
                             myActiveOrders
      in case deliveredOrder of
           None \<Rightarrow> (rider, acc)
         | Some delivered \<Rightarrow>
             (case findIndex (\<lambda>ord. Order.id ord = Order.id delivered) (nextOrders acc) of
                None \<Rightarrow> (rider, acc)
              | Some orderIdx \<Rightarrow>
                  (let acc' = markDelivered t (hotels w) (homes w) orderIdx acc;
                       dist = (case blocksCovered (nextOrders acc' ! orderIdx) of
                                 Some d \<Rightarrow> if d \<noteq> 0 then d else 5
                               | None \<Rightarrow> 5);
                       pay = 150 + dist * 5
                   in (rider\<lparr>totalEarnings := totalEarnings rider + pay,
                             totalOrdersDelivered := totalOrdersDelivered rider + 1,
                             totalDistanceTraveled := totalDistanceTraveled rider + dist\<rparr>,
                       acc'))))"

definition finishDelivery :: "World \<Rightarrow> Rider \<Rightarrow> TickAcc \<Rightarrow> Rider \<times> TickAcc" where
  "finishDelivery w rider acc =
     (let lastOrder = (if assignedOrderIds rider = [] then None
                       else find (\<lambda>ord. Order.id ord = last (assignedOrderIds rider)) (nextOrders acc));
          firstHotel = (case hotels w of [] \<Rightarrow> None | h # hs \<Rightarrow> Some h);
          hotelToReturnTo =
            (case lastOrder of
               None \<Rightarrow> firstHotel
             | Some lo \<Rightarrow> (case find (\<lambda>h. Entity.id h = hotelId lo) (hotels w) of
                             Some h \<Rightarrow> Some h
                           | None \<Rightarrow> firstHotel));
          returnPath = (case hotelToReturnTo of
                          None \<Rightarrow> None
                        | Some h \<Rightarrow> map_option (Pair h) (findPath (pos rider) (pos h) (walls w) (algorithm w)))
      in case returnPath of
           Some (h, found) \<Rightarrow>
             (rider\<lparr>Rider.status := RETURNING, pathQueue := tl (path found),
                    targetEntityId := Some (Entity.id h), color := RIDER_IDLE\<rparr>,
              acc\<lparr>ridersChanged := True\<rparr>)
         | None \<Rightarrow>
             (rider\<lparr>Rider.status := IDLE, assignedOrderIds := [], color := RIDER_IDLE\<rparr>,
              acc\<lparr>ridersChanged := True\<rparr>))"

definition deliveringStep :: "int \<Rightarrow> World \<Rightarrow> Rider \<Rightarrow> TickAcc \<Rightarrow> Rider \<times> TickAcc" where
  "deliveringStep t w rider0 acc0 =
     (case deliverHere t w rider0 acc0 of
        (rider, acc) \<Rightarrow>
          if length (pathQueue rider) = 0
             \<and> \<not> list_ex (\<lambda>ord. Order.id ord \<in> set (assignedOrderIds rider)
                                  \<and> Order.status ord \<noteq> DELIVERED) (nextOrders acc)
          then finishDelivery w rider acc
          else (rider, acc))"

definition movingStep :: "Rider \<Rightarrow> TickAcc \<Rightarrow> Rider \<times> TickAcc" where
  "movingStep rider acc =
     (case moveRider rider (nextPathTrace acc) of
        (moved, stepsMoved, trace) \<Rightarrow>
          (moved,
           acc\<lparr>ridersChanged := True,
               pathTraceChanged := (pathTraceChanged acc \<or> stepsMoved > 0),
               nextPathTrace := trace,
               distanceAcc := (if stepsMoved > 0 \<and> (Rider.status rider = DELIVERING
                                                  \<or> Rider.status rider = MOVING_TO_HOTEL)
                               then distanceAcc acc + int stepsMoved else distanceAcc acc)\<rparr>))"

definition riderStep :: "int \<Rightarrow> World \<Rightarrow> Rider \<Rightarrow> TickAcc \<Rightarrow> Rider \<times> TickAcc" where
  "riderStep t w rider acc =
     (if thrown acc then (rider, acc)
      else if length (pathQueue rider) > 0 then movingStep rider acc
      else if Rider.status rider = MOVING_TO_HOTEL \<and> length (pathQueue rider) = 0
      then (rider\<lparr>Rider.status := WAITING_FOR_FOOD\<rparr>, acc\<lparr>ridersChanged := True\<rparr>)
      else
        (let myOrders = filter (\<lambda>ord. Order.id ord \<in> set (assignedOrderIds rider)) (nextOrders acc)
         in if Rider.status rider = WAITING_FOR_FOOD
               \<and> list_all (\<lambda>ord. Order.status ord = READY) myOrders \<and> length myOrders > 0
            then startDelivery t w rider myOrders acc
            else if Rider.status rider = DELIVERING then deliveringStep t w rider acc
            else if Rider.status rider = RETURNING \<and> length (pathQueue rider) = 0
            then (rider\<lparr>Rider.status := IDLE, assignedOrderIds := [], targetEntityId := None,
                         color := RIDER_IDLE\<rparr>,
                  acc\<lparr>ridersChanged := True\<rparr>)
            else (rider, acc)))"

definition mapRiders :: "int \<Rightarrow> World \<Rightarrow> Rider list \<Rightarrow> TickAcc \<Rightarrow> Rider list \<times> TickAcc" where
  "mapRiders t w rs acc =
     fold (\<lambda>rider (out, a). case riderStep t w rider a of (rider', a') \<Rightarrow> (out @ [rider'], a')) rs ([], acc)"

text \<open>
  The pending-order dispatcher.  \<open>fair\<close> is \<open>fairnessMode\<close> as the tick's closure sees it.
\<close>

definition dispatchOne :: "bool \<Rightarrow> World \<Rightarrow> nat \<Rightarrow> Rider list \<times> TickAcc \<Rightarrow> Rider list \<times> TickAcc" where
  "dispatchOne fair w i st =
     (case st of (nextRiders, acc) \<Rightarrow>
        (let order = nextOrders acc ! i;
             availableRiders = filter (\<lambda>x. Rider.status x = IDLE) nextRiders
         in if length availableRiders = 0 then st
            else case find (\<lambda>h. Entity.id h = hotelId order) (hotels w) of
                   None \<Rightarrow> st
                 | Some hotel \<Rightarrow>
                     (let chosenRider =
                            (if fair
                             then (let avg = real_of_int (sum_list (map totalEarnings nextRiders))
                                             / real (length nextRiders);
                                       below = filter (\<lambda>x. real_of_int (totalEarnings x) \<le> avg) availableRiders;
                                       candidates = sort_key totalEarnings
                                                      (if length below = 0 then availableRiders else below);
                                       best = candidates ! 0;
                                       available' = (if length below = 0 then candidates else availableRiders)
                                   in find (\<lambda>x. Entity.id x = Entity.id best) available')
                             else Some (sort_key (\<lambda>x. getManhattanDistance (pos x) (pos hotel)) availableRiders ! 0))
                      in case chosenRider of
                           None \<Rightarrow> (nextRiders, acc\<lparr>thrown := True\<rparr>)
                         | Some chosen \<Rightarrow>
                             (case findIndex (\<lambda>x. Entity.id x = Entity.id chosen) nextRiders of
                                None \<Rightarrow> st
                              | Some realIdx \<Rightarrow>
                                  (case findPath (pos chosen) (pos hotel) (walls w) (algorithm w) of
                                     None \<Rightarrow> st
                                   | Some pathToHotel \<Rightarrow>
                                       (nextRiders[realIdx := (nextRiders ! realIdx)
                                           \<lparr>Rider.status := MOVING_TO_HOTEL, targetEntityId := Some (Entity.id hotel),
                                            assignedOrderIds := [Order.id order],
                                            pathQueue := tl (path pathToHotel), color := RIDER_BUSY\<rparr>],
                                        (mutateOrder i (\<lambda>ord. ord\<lparr>riderId := Some (Entity.id chosen)\<rparr>) acc)
                                          \<lparr>ridersChanged := True,
                                           messageAcc := ''Dispatch: '' @ take 4 (Order.id order) @ '' -> ''
                                                         @ label chosen\<rparr>))))))"

definition dispatchPending :: "bool \<Rightarrow> World \<Rightarrow> Rider list \<times> TickAcc \<Rightarrow> Rider list \<times> TickAcc" where
  "dispatchPending fair w st =
     (case st of (nextRiders, acc) \<Rightarrow>
        (let pending = filter (\<lambda>i. riderId (nextOrders acc ! i) = None
                                    \<and> Order.status (nextOrders acc ! i) \<noteq> DELIVERED)
                         [0..<length (nextOrders acc)]
         in if length pending > 0 \<and> length (filter (\<lambda>x. Rider.status x = IDLE) nextRiders) > 0
            then fold (dispatchOne fair w) pending st
            else st))"

text \<open>
  \<open>generateRandomOrders(count, currentRiders)\<close>: one element of the environment list per
  iteration; the third component records a \<open>TypeError\<close>.  \<open>cl\<close> is the state as the
  closure of the function sees it.
\<close>

definition generateRandomOrder ::
  "(Rider list \<Rightarrow> Position list \<Rightarrow> real \<Rightarrow> AssignmentResult list) \<Rightarrow> World \<Rightarrow> TickEnv
    \<Rightarrow> Order list \<times> Rider list \<times> bool \<Rightarrow> Order list \<times> Rider list \<times> bool" where
  "generateRandomOrder weightedAssignment cl env st =
     (case st of (newOrdersList, updatedRiders, failed) \<Rightarrow>
        if failed then st
        else
          (let hotel = hotels cl ! 0;
               pick = \<lfloor>random env * real (length (homes cl))\<rfloor>
           in if pick < 0 \<or> int (length (homes cl)) \<le> pick then (newOrdersList, updatedRiders, True)
              else
                (let home = homes cl ! nat pick;
                     newOrder = freshOrder (randomUUID env) (Entity.id home) (Entity.id hotel) (clock env);
                     idleRiders = filter (\<lambda>x. Rider.status x = IDLE) updatedRiders
                 in if length idleRiders > 0
                    then
                      (let chosenRiderIdx =
                             (if fairnessMode cl
                              then (case weightedAssignment idleRiders [pos hotel] (fairnessAlpha cl * 1) of
                                      res # rest \<Rightarrow> riderIndex res
                                    | [] \<Rightarrow> 0)
                              else 0);
                           idleRiders' = (if fairnessMode cl then idleRiders
                                          else sort_key (\<lambda>x. getManhattanDistance (pos x) (pos hotel)) idleRiders)
                       in if length idleRiders' \<le> chosenRiderIdx then (newOrdersList, updatedRiders, True)
                          else
                            (let chosenRider = idleRiders' ! chosenRiderIdx
                             in case findIndex (\<lambda>x. Entity.id x = Entity.id chosenRider) updatedRiders of
                                  None \<Rightarrow> (newOrdersList @ [newOrder], updatedRiders, False)
                                | Some realIdx \<Rightarrow>
                                    (case findPath (pos chosenRider) (pos hotel) (walls cl) (algorithm cl) of
                                       None \<Rightarrow> (newOrdersList @ [newOrder], updatedRiders, False)
                                     | Some pathToHotel \<Rightarrow>
                                         (newOrdersList @ [newOrder\<lparr>riderId := Some (Entity.id chosenRider)\<rparr>],
                                          updatedRiders[realIdx := (updatedRiders ! realIdx)
                                             \<lparr>Rider.status := MOVING_TO_HOTEL,
                                              targetEntityId := Some (Entity.id hotel),
                                              assignedOrderIds := [randomUUID env],
                                              pathQueue := tl (path pathToHotel), color := RIDER_BUSY\<rparr>],
                                          False))))
                    else (newOrdersList @ [newOrder], updatedRiders, False))))"

definition generateRandomOrders ::
  "(Rider list \<Rightarrow> Position list \<Rightarrow> real \<Rightarrow> AssignmentResult list) \<Rightarrow> World \<Rightarrow> TickEnv list
    \<Rightarrow> Rider list \<Rightarrow> Order list \<times> Rider list \<times> bool" where
  "generateRandomOrders weightedAssignment cl envs currentRiders =
     (if length (hotels cl) = 0 \<or> length (homes cl) = 0 then ([], currentRiders, False)
      else fold (generateRandomOrder weightedAssignment cl) envs ([], currentRiders, False))"

definition syncRider :: "Rider \<Rightarrow> Rider list \<times> TickAcc \<Rightarrow> Rider list \<times> TickAcc" where
  "syncRider ur st =
     (case st of (nextRiders, acc) \<Rightarrow>
        (case findIndex (\<lambda>nr. Entity.id nr = Entity.id ur) nextRiders of
           None \<Rightarrow> st
         | Some idx \<Rightarrow>
             if length (assignedOrderIds ur) \<noteq> length (assignedOrderIds (nextRiders ! idx))
             then (nextRiders[idx := ur],
                   acc\<lparr>ridersChanged := True, messageAcc := ''Demo: Assigned to '' @ label ur\<rparr>)
             else st))"

definition autoGenerate ::
  "(Rider list \<Rightarrow> Position list \<Rightarrow> real \<Rightarrow> AssignmentResult list) \<Rightarrow> TickEnv \<Rightarrow> World \<Rightarrow> World
    \<Rightarrow> Rider list \<times> TickAcc \<Rightarrow> (Rider list \<times> TickAcc) \<times> int" where
  "autoGenerate weightedAssignment env cl w st =
     (case st of (nextRiders, acc) \<Rightarrow>
        if scenario cl = DEMO_FAIRNESS \<and> now env - autoOrderRef w > 2000
           \<and> length (filter (\<lambda>ord. Order.status ord \<noteq> DELIVERED) (nextOrders acc)) < 20
        then (case generateRandomOrders weightedAssignment cl [env] nextRiders of
                (newOrders, updatedRiders, failed) \<Rightarrow>
                  if failed then ((nextRiders, acc\<lparr>thrown := True\<rparr>), autoOrderRef w)
                  else if length newOrders > 0
                  then (fold syncRider updatedRiders
                          (nextRiders, acc\<lparr>nextOrders := nextOrders acc @ newOrders\<rparr>),
                        now env)
                  else (st, autoOrderRef w))
        else (st, autoOrderRef w))"

text \<open>
  \<open>handleSimulationTick\<close>.  \<open>w\<close> is the state read through \<open>stateRef.current\<close>; \<open>cl\<close> is
  the state as captured by the closure of the function (\<open>pathTrace\<close>, \<open>scenario\<close>,
  \<open>fairnessMode\<close> and what \<open>generateRandomOrders\<close> reads).  The result is the state after
  the tick and the failure, if one was raised.
\<close>

definition handleSimulationTick ::
  "(Rider list \<Rightarrow> Position list \<Rightarrow> real \<Rightarrow> AssignmentResult list) \<Rightarrow> TickEnv \<Rightarrow> World \<Rightarrow> World
    \<Rightarrow> World \<times> Failure option" where
  "handleSimulationTick weightedAssignment env cl w =
     (let acc0 = \<lparr>nextOrders = map cook (orders w), prevOrders = orders w,
                  sharedObj = map (\<lambda>ord. Order.status ord \<noteq> COOKING) (orders w),
                  ordersSet = list_ex cookChanged (orders w),
                  ridersChanged = False, pathTraceChanged = False, nextPathTrace = pathTrace cl,
                  distanceAcc = distanceTraveled w, messageAcc = statusMessage w, thrown = False\<rparr>;
          st1 = mapRiders (now env) w (riders w) acc0;
          st2 = (if thrown (snd st1) then st1 else dispatchPending (fairnessMode cl) w st1);
          (st3, autoRef) = (if thrown (snd st2) then (st2, autoOrderRef w)
                            else autoGenerate weightedAssignment env cl w st2);
          nextRiders = fst st3;
          acc = snd st3;
          w1 = w\<lparr>orders := (if ordersSet acc then nextOrders acc else prevOrders acc),
                 distanceTraveled := distanceAcc acc, statusMessage := messageAcc acc\<rparr>
      in if thrown acc then (w1, Some TypeError)
         else (w1\<lparr>riders := (if ridersChanged acc then nextRiders else riders w),
                  pathTrace := (if pathTraceChanged acc then nextPathTrace acc else pathTrace w),
                  autoOrderRef := autoRef\<rparr>, None))"

section \<open>Claims about the dispatcher\<close>

text \<open>
  The distances, not above the threshold, from the new order's home to the home of an
  order, and to the homes of all the orders already batched on a rider.
\<close>

definition homeDistances :: "Entity list \<Rightarrow> Entity \<Rightarrow> Order \<Rightarrow> int list" where
  "homeDistances hs home ord =
     (case find (\<lambda>h. Entity.id h = homeId ord) hs of
        None \<Rightarrow> []
      | Some existingHome \<Rightarrow>
          if getManhattanDistance (pos existingHome) (pos home) \<le> BATCH_DISTANCE_THRESHOLD
          then [getManhattanDistance (pos existingHome) (pos home)] else [])"

definition batchDistances :: "Order list \<Rightarrow> Entity list \<Rightarrow> Entity \<Rightarrow> Rider \<Rightarrow> int list" where
  "batchDistances os hs home rider =
     concat (map (homeDistances hs home) (filter (\<lambda>ord. Order.id ord \<in> set (assignedOrderIds rider)) os))"

text \<open>
  One candidate against the best so far, and what it means for \<open>best\<close> to be the choice
  among the candidates \<open>S\<close>: none when there is no candidate, else a candidate of least
  distance.
\<close>

definition pick :: "Rider \<times> int \<Rightarrow> Rider option \<times> int option \<Rightarrow> Rider option \<times> int option" where
  "pick cand best = (if belowMin (snd cand) (snd best) then (Some (fst cand), Some (snd cand)) else best)"

definition chosen :: "(Rider \<times> int) set \<Rightarrow> Rider option \<times> int option \<Rightarrow> bool" where
  "chosen S best \<longleftrightarrow>
     (best = (None, None) \<and> S = {})
     \<or> (\<exists>b d. best = (Some b, Some d) \<and> (b, d) \<in> S \<and> (\<forall>(x, d') \<in> S. d \<le> d'))"

lemma chosen_pick: "chosen S best \<Longrightarrow> chosen (insert cand S) (pick cand best)"
  unfolding chosen_def pick_def belowMin_def
  by (cases cand) (auto split: option.splits)

lemma chosen_fold_pick: "chosen S best \<Longrightarrow> chosen (S \<union> set cs) (fold pick cs best)"
proof (induction cs arbitrary: S best)
  case Nil
  then show ?case by simp
next
  case (Cons cand cs)
  have "chosen (insert cand S \<union> set cs) (fold pick cs (pick cand best))"
    using Cons.prems by (intro Cons.IH chosen_pick)
  then show ?case
    by simp
qed

lemma considerOrder_pick:
  "considerOrder hs home rider ord best = fold pick (map (Pair rider) (homeDistances hs home ord)) best"
  by (simp add: considerOrder_def homeDistances_def pick_def Let_def split: option.splits)

lemma fold_considerOrder_pick:
  "fold (considerOrder hs home rider) xs best
     = fold pick (map (Pair rider) (concat (map (homeDistances hs home) xs))) best"
  by (induction xs arbitrary: best) (simp_all add: considerOrder_pick)

lemma considerRider_pick:
  "considerRider os hs home rider best = fold pick (map (Pair rider) (batchDistances os hs home rider)) best"
  by (simp add: considerRider_def batchDistances_def fold_considerOrder_pick)

lemma fold_considerRider_pick:
  "fold (considerRider os hs home) rs best
     = fold pick (concat (map (\<lambda>x. map (Pair x) (batchDistances os hs home x)) rs)) best"
  by (induction rs arbitrary: best) (simp_all add: considerRider_pick)

lemma batch_search:
  "chosen {(x, d). x \<in> set rs \<and> d \<in> set (batchDistances os hs home x)}
     (fold (considerRider os hs home) rs (None, None))"
proof -
  have "chosen ({} \<union> set (concat (map (\<lambda>x. map (Pair x) (batchDistances os hs home x)) rs)))
          (fold pick (concat (map (\<lambda>x. map (Pair x) (batchDistances os hs home x)) rs)) (None, None))"
    by (rule chosen_fold_pick) (simp add: chosen_def)
  moreover have "set (concat (map (\<lambda>x. map (Pair x) (batchDistances os hs home x)) rs))
      = {(x, d). x \<in> set rs \<and> d \<in> set (batchDistances os hs home x)}"
    by auto
  ultimately show ?thesis
    by (simp add: fold_considerRider_pick)
qed

text \<open>Example scenes: no weighted solver, a rider walled in, and a rider on its way to a hotel.\<close>

definition noWeighted :: "Rider list \<Rightarrow> Position list \<Rightarrow> real \<Rightarrow> AssignmentResult list" where
  "noWeighted rs ps alpha = []"

definition ringWorld :: World where
  "ringWorld =
     \<lparr>riders = [placedRider ''r1'' \<lparr>r = 1, c = 1\<rparr> ''R1'' 1],
      orders = [],
      hotels = [placedEntity ''h1'' HOTEL \<lparr>r = 5, c = 5\<rparr> ''H1'' ''bg-amber-400 text-amber-900''],
      homes = [placedEntity ''d1'' HOME \<lparr>r = 8, c = 8\<rparr> ''C1'' ''bg-emerald-500 text-emerald-50''],
      walls = wallsOf [(0, 1), (1, 0), (1, 2), (2, 1)],
      algorithm = DIJKSTRA, scenario = SANDBOX, fairnessMode = False, fairnessAlpha = 50,
      pathTrace = {}, distanceTraveled = 0,
      statusMessage = ''Welcome! Add entities or start ordering.'', autoOrderRef = 0\<rparr>"

definition busyRider :: Rider where
  "busyRider = (placedRider ''r1'' \<lparr>r = 2, c = 2\<rparr> ''R1'' 1)
     \<lparr>Rider.status := MOVING_TO_HOTEL, targetEntityId := Some ''h1'', assignedOrderIds := [''o1''],
      pathQueue := [\<lparr>r = 3, c = 2\<rparr>], color := RIDER_BUSY\<rparr>"

definition batchWorld :: World where
  "batchWorld =
     \<lparr>riders = [busyRider, placedRider ''r2'' \<lparr>r = 5, c = 6\<rparr> ''R2'' 1],
      orders = [(freshOrder ''o1'' ''d1'' ''h1'' ''12:00:00'')\<lparr>riderId := Some ''r1''\<rparr>],
      hotels = [placedEntity ''h1'' HOTEL \<lparr>r = 5, c = 5\<rparr> ''H1'' ''bg-amber-400 text-amber-900''],
      homes = [placedEntity ''d1'' HOME \<lparr>r = 2, c = 10\<rparr> ''C1'' ''bg-emerald-500 text-emerald-50'',
               placedEntity ''d2'' HOME \<lparr>r = 4, c = 10\<rparr> ''C2'' ''bg-emerald-500 text-emerald-50''],
      walls = {},
      algorithm = DIJKSTRA, scenario = SANDBOX, fairnessMode = False, fairnessAlpha = 50,
      pathTrace = {}, distanceTraveled = 0,
      statusMessage = ''Welcome! Add entities or start ordering.'', autoOrderRef = 0\<rparr>"

text \<open>
  C4 (fails on the code).  The claim: when the chosen idle rider has no path to the hotel,
  the dispatch is declined, the rider is unchanged and the new order stays in the order
  collection with no rider.  The code returns right after the error message, before the
  order is added, so the order is in no collection at all; the branch for no idle rider,
  just above it, does add the unassigned order.  Here the only rider is enclosed by a ring
  of walls.
\<close>

theorem createOrder_unreachable_drops_order:
  "(case createOrder noWeighted ''o1'' ''12:00:00'' ''d1'' ''h1'' ringWorld of
      Inl e \<Rightarrow> False
    | Inr w \<Rightarrow> orders w = [] \<and> riders w = riders ringWorld
                 \<and> statusMessage w = ''Error: R1 cannot reach H1'')"
  by code_simp

text \<open>
  C7.  When some rider moving to or waiting at the order's hotel has, among the orders
  already batched on it, a home within Manhattan distance 8 of the new order's home, then
  \<open>createOrder\<close> appends the new order to the \<open>assignedOrderIds\<close> of such a rider \<open>b\<close> whose
  distance \<open>d\<close> is least among all qualifying riders, records \<open>b\<close> as the order's rider,
  and changes nothing else of any rider: no idle rider is dispatched, whether or not one
  exists.  (Riders are told apart by their ids.)
\<close>

theorem createOrder_batches:
  assumes home: "find (\<lambda>h. Entity.id h = home_id) (homes w) = Some home"
    and hotel: "find (\<lambda>h. Entity.id h = hotel_id) (hotels w) = Some hotel"
    and active: "rider \<in> set (activeRidersFor (riders w) hotel_id)"
    and near: "batchDistances (orders w) (homes w) home rider \<noteq> []"
  shows "\<exists>b d. b \<in> set (activeRidersFor (riders w) hotel_id)
           \<and> d \<in> set (batchDistances (orders w) (homes w) home b)
           \<and> (\<forall>x \<in> set (activeRidersFor (riders w) hotel_id).
                 \<forall>d' \<in> set (batchDistances (orders w) (homes w) home x). d \<le> d')
           \<and> createOrder weightedAssignment newOrderId stamp home_id hotel_id w
               = Inr (w\<lparr>statusMessage := ''Smart Batch: Assgn to '' @ label b @ '' (Detour: '' @ showInt d @ '')'',
                        riders := map (\<lambda>x. if Entity.id x = Entity.id b
                                              then x\<lparr>assignedOrderIds := assignedOrderIds x @ [newOrderId],
                                                     color := RIDER_BUSY\<rparr>
                                              else x) (riders w),
                        orders := orders w @ [(freshOrder newOrderId home_id hotel_id stamp)
                                                \<lparr>riderId := Some (Entity.id b)\<rparr>]\<rparr>)"
proof -
  define S where "S = {(x, d). x \<in> set (activeRidersFor (riders w) hotel_id)
                          \<and> d \<in> set (batchDistances (orders w) (homes w) home x)}"
  define best where "best = fold (considerRider (orders w) (homes w) home)
                              (activeRidersFor (riders w) hotel_id) (None, None)"
  have "chosen S best"
    unfolding S_def best_def by (rule batch_search)
  moreover have "S \<noteq> {}"
  proof -
    obtain d where "d \<in> set (batchDistances (orders w) (homes w) home rider)"
      using near by (cases "batchDistances (orders w) (homes w) home rider") auto
    then have "(rider, d) \<in> S"
      using active by (simp add: S_def)
    then show ?thesis
      by auto
  qed
  ultimately obtain b d where best_eq: "best = (Some b, Some d)" and mem: "(b, d) \<in> S"
    and least: "\<forall>(x, d') \<in> S. d \<le> d'"
    unfolding chosen_def by blast
  have run: "createOrder weightedAssignment newOrderId stamp home_id hotel_id w
      = Inr (w\<lparr>statusMessage := ''Smart Batch: Assgn to '' @ label b @ '' (Detour: '' @ showInt d @ '')'',
               riders := map (\<lambda>x. if Entity.id x = Entity.id b
                                     then x\<lparr>assignedOrderIds := assignedOrderIds x @ [newOrderId],
                                            color := RIDER_BUSY\<rparr>
                                     else x) (riders w),
               orders := orders w @ [(freshOrder newOrderId home_id hotel_id stamp)
                                       \<lparr>riderId := Some (Entity.id b)\<rparr>]\<rparr>)"
    using best_eq unfolding createOrder_def best_def by (simp add: home hotel)
  show ?thesis
    using mem least run unfolding S_def by blast
qed

theorem createOrder_batches_witness:
  "busyRider \<in> set (activeRidersFor (riders batchWorld) ''h1'')
   \<and> batchDistances (orders batchWorld) (homes batchWorld)
         (placedEntity ''d2'' HOME \<lparr>r = 4, c = 10\<rparr> ''C2'' ''bg-emerald-500 text-emerald-50'') busyRider = [2]
   \<and> createOrder noWeighted ''o2'' ''12:00:05'' ''d2'' ''h1'' batchWorld
       = Inr (batchWorld
               \<lparr>statusMessage := ''Smart Batch: Assgn to R1 (Detour: 2)'',
                riders := [busyRider\<lparr>assignedOrderIds := [''o1'', ''o2''], color := RIDER_BUSY\<rparr>,
                           placedRider ''r2'' \<lparr>r = 5, c = 6\<rparr> ''R2'' 1],
                orders := orders batchWorld @ [(freshOrder ''o2'' ''d2'' ''h1'' ''12:00:05'')
                                                 \<lparr>riderId := Some ''r1''\<rparr>]\<rparr>)"
proof -
  have home: "find (\<lambda>h. Entity.id h = ''d2'') (homes batchWorld)
      = Some (placedEntity ''d2'' HOME \<lparr>r = 4, c = 10\<rparr> ''C2'' ''bg-emerald-500 text-emerald-50'')"
    by (simp add: batchWorld_def placedEntity_def)
  have hotel: "find (\<lambda>h. Entity.id h = ''h1'') (hotels batchWorld)
      = Some (placedEntity ''h1'' HOTEL \<lparr>r = 5, c = 5\<rparr> ''H1'' ''bg-amber-400 text-amber-900'')"
    by (simp add: batchWorld_def placedEntity_def)
  have actives: "activeRidersFor (riders batchWorld) ''h1'' = [busyRider]"
    by (simp add: batchWorld_def activeRidersFor_def busyRider_def placedRider_def)
  have dists: "batchDistances (orders batchWorld) (homes batchWorld)
      (placedEntity ''d2'' HOME \<lparr>r = 4, c = 10\<rparr> ''C2'' ''bg-emerald-500 text-emerald-50'') busyRider = [2]"
    by (simp add: batchWorld_def batchDistances_def homeDistances_def busyRider_def placedRider_def
        placedEntity_def freshOrder_def getManhattanDistance_def BATCH_DISTANCE_THRESHOLD_def)
  have active: "busyRider \<in> set (activeRidersFor (riders batchWorld) ''h1'')"
    by (simp add: actives)
  have near: "batchDistances (orders batchWorld) (homes batchWorld)
      (placedEntity ''d2'' HOME \<lparr>r = 4, c = 10\<rparr> ''C2'' ''bg-emerald-500 text-emerald-50'') busyRider \<noteq> []"
    by (simp add: dists)
  obtain b d where b: "b \<in> set (activeRidersFor (riders batchWorld) ''h1'')"
    and d: "d \<in> set (batchDistances (orders batchWorld) (homes batchWorld)
      (placedEntity ''d2'' HOME \<lparr>r = 4, c = 10\<rparr> ''C2'' ''bg-emerald-500 text-emerald-50'') b)"
    and run: "createOrder noWeighted ''o2'' ''12:00:05'' ''d2'' ''h1'' batchWorld
         = Inr (batchWorld
                 \<lparr>statusMessage := ''Smart Batch: Assgn to '' @ label b @ '' (Detour: '' @ showInt d @ '')'',
                  riders := map (\<lambda>x. if Entity.id x = Entity.id b
                                        then x\<lparr>assignedOrderIds := assignedOrderIds x @ [''o2''],
                                               color := RIDER_BUSY\<rparr>
                                        else x) (riders batchWorld),
                  orders := orders batchWorld @ [(freshOrder ''o2'' ''d2'' ''h1'' ''12:00:05'')
                                                   \<lparr>riderId := Some (Entity.id b)\<rparr>]\<rparr>)"
    using createOrder_batches[OF home hotel active near] by blast
  have b_eq: "b = busyRider"
    using b by (simp add: actives)
  have d_eq: "d = 2"
    using d by (simp add: b_eq dists)
  have shown: "showInt 2 = ''2''"
    by (simp add: showInt_def digitChar_def)
  have "createOrder noWeighted ''o2'' ''12:00:05'' ''d2'' ''h1'' batchWorld
       = Inr (batchWorld
               \<lparr>statusMessage := ''Smart Batch: Assgn to R1 (Detour: 2)'',
                riders := [busyRider\<lparr>assignedOrderIds := [''o1'', ''o2''], color := RIDER_BUSY\<rparr>,
                           placedRider ''r2'' \<lparr>r = 5, c = 6\<rparr> ''R2'' 1],
                orders := orders batchWorld @ [(freshOrder ''o2'' ''d2'' ''h1'' ''12:00:05'')
                                                 \<lparr>riderId := Some ''r1''\<rparr>]\<rparr>)"
    unfolding run b_eq d_eq shown
    by (simp add: batchWorld_def busyRider_def placedRider_def)
  then show ?thesis
    using active dists by simp
qed

section \<open>Claims about the order lifecycle\<close>

text \<open>The position of a status on the line COOKING, READY, DELIVERED.\<close>

fun rank :: "OrderStatus \<Rightarrow> nat" where
  "rank COOKING = 0"
| "rank READY = 1"
| "rank DELIVERED = 2"

text \<open>
  The operations on the state: a tick, with its environment and the state its closure
  captured, and the creation of an order.  A failed operation leaves what it had written
  before it failed: nothing for \<open>createOrder\<close>, the state returned with the failure for a
  tick.
\<close>

datatype Op = Tick TickEnv World | Create string string string string

fun applyOp :: "(Rider list \<Rightarrow> Position list \<Rightarrow> real \<Rightarrow> AssignmentResult list) \<Rightarrow> Op \<Rightarrow> World \<Rightarrow> World" where
  "applyOp weightedAssignment (Tick env cl) w = fst (handleSimulationTick weightedAssignment env cl w)"
| "applyOp weightedAssignment (Create newOrderId stamp home_id hotel_id) w =
     (case createOrder weightedAssignment newOrderId stamp home_id hotel_id w of
        Inl failure \<Rightarrow> w
      | Inr w' \<Rightarrow> w')"

definition run :: "(Rider list \<Rightarrow> Position list \<Rightarrow> real \<Rightarrow> AssignmentResult list) \<Rightarrow> Op list \<Rightarrow> World \<Rightarrow> World" where
  "run weightedAssignment ops w = fold (applyOp weightedAssignment) ops w"

text \<open>
  How the working copies of a tick relate to the orders \<open>os\<close> it started from: a slot of
  \<open>nextOrders\<close> keeps the id, has not moved back in status and carries the decremented
  timer; a slot of the state's own array keeps id, status and timer; and if step 1
  flagged a change, \<open>setOrders\<close> has been called.
\<close>

definition tracks :: "Order \<Rightarrow> Order \<Rightarrow> bool" where
  "tracks old new \<longleftrightarrow>
     Order.id new = Order.id old \<and> rank (Order.status old) \<le> rank (Order.status new)
     \<and> cookingTimeRemainingMs new
         = (if Order.status old = COOKING then max 0 (cookingTimeRemainingMs old - DELAY_MS)
            else cookingTimeRemainingMs old)"

definition untouched :: "Order \<Rightarrow> Order \<Rightarrow> bool" where
  "untouched old new \<longleftrightarrow>
     Order.id new = Order.id old \<and> Order.status new = Order.status old
     \<and> cookingTimeRemainingMs new = cookingTimeRemainingMs old"

definition accOK :: "Order list \<Rightarrow> TickAcc \<Rightarrow> bool" where
  "accOK os acc \<longleftrightarrow>
     length (prevOrders acc) = length os \<and> length (sharedObj acc) = length os
     \<and> length os \<le> length (nextOrders acc)
     \<and> (\<forall>i < length os. tracks (os ! i) (nextOrders acc ! i) \<and> untouched (os ! i) (prevOrders acc ! i))
     \<and> (list_ex cookChanged os \<longrightarrow> ordersSet acc)"

text \<open>No order is lost, and each keeps its id and does not move back in status.\<close>

definition advances :: "Order list \<Rightarrow> Order list \<Rightarrow> bool" where
  "advances os os' \<longleftrightarrow>
     length os \<le> length os'
     \<and> (\<forall>i < length os. Order.id (os' ! i) = Order.id (os ! i)
            \<and> rank (Order.status (os ! i)) \<le> rank (Order.status (os' ! i)))"

lemma tracks_cook: "tracks ord (cook ord)"
  by (cases "Order.status ord") (simp_all add: tracks_def cook_def Let_def)

lemma accOK_init:
  "accOK os \<lparr>nextOrders = map cook os, prevOrders = os,
             sharedObj = map (\<lambda>ord. Order.status ord \<noteq> COOKING) os,
             ordersSet = list_ex cookChanged os,
             ridersChanged = rc, pathTraceChanged = pc, nextPathTrace = tr,
             distanceAcc = da, messageAcc = ma, thrown = th\<rparr>"
  by (simp add: accOK_def tracks_cook untouched_def)

lemma accOK_flags [simp]:
  "accOK os (acc\<lparr>ridersChanged := rc\<rparr>) = accOK os acc"
  "accOK os (acc\<lparr>pathTraceChanged := pc\<rparr>) = accOK os acc"
  "accOK os (acc\<lparr>nextPathTrace := tr\<rparr>) = accOK os acc"
  "accOK os (acc\<lparr>distanceAcc := da\<rparr>) = accOK os acc"
  "accOK os (acc\<lparr>messageAcc := ma\<rparr>) = accOK os acc"
  "accOK os (acc\<lparr>thrown := th\<rparr>) = accOK os acc"
  by (simp_all add: accOK_def)

lemma accOK_ordersSet: "accOK os acc \<Longrightarrow> accOK os (acc\<lparr>ordersSet := True\<rparr>)"
  by (simp add: accOK_def)

lemma accOK_mutate:
  assumes ok: "accOK os acc"
    and keep: "\<And>ord. Order.id (f ord) = Order.id ord \<and> Order.status (f ord) = Order.status ord
                 \<and> cookingTimeRemainingMs (f ord) = cookingTimeRemainingMs ord"
  shows "accOK os (mutateOrder i f acc)"
proof -
  have t: "tracks old (f new)" if "tracks old new" for old new
    using that keep[of new] by (simp add: tracks_def)
  have u: "untouched old (f new)" if "untouched old new" for old new
    using that keep[of new] by (simp add: untouched_def)
  have next_ok: "tracks (os ! k) ((nextOrders acc)[i := f (nextOrders acc ! i)] ! k)"
    if k: "k < length os" for k
  proof (cases "k = i")
    case True
    then show ?thesis
      using ok k t by (simp add: accOK_def)
  next
    case False
    then show ?thesis
      using ok k by (simp add: accOK_def)
  qed
  have prev_ok: "untouched (os ! k) ((prevOrders acc)[i := f (prevOrders acc ! i)] ! k)"
    if k: "k < length os" for k
  proof (cases "k = i")
    case True
    then show ?thesis
      using ok k u by (simp add: accOK_def)
  next
    case False
    then show ?thesis
      using ok k by (simp add: accOK_def)
  qed
  show ?thesis
    using ok next_ok prev_ok unfolding accOK_def mutateOrder_def by simp
qed

lemma accOK_replace:
  assumes ok: "accOK os acc"
    and new: "Order.id ord = Order.id (nextOrders acc ! i)" "Order.status ord = DELIVERED"
      "cookingTimeRemainingMs ord = cookingTimeRemainingMs (nextOrders acc ! i)"
  shows "accOK os (replaceOrder i ord acc)"
proof -
  have "tracks (os ! k) ((nextOrders acc)[i := ord] ! k)" if k: "k < length os" for k
  proof (cases "k = i")
    case True
    have "tracks (os ! i) (nextOrders acc ! i)"
      using ok k True by (simp add: accOK_def)
    then have "tracks (os ! i) ord"
      using new by (cases "Order.status (os ! i)") (simp_all add: tracks_def)
    moreover have "i < length (nextOrders acc)"
      using ok k True by (simp add: accOK_def)
    ultimately show ?thesis
      using True by simp
  next
    case False
    then show ?thesis
      using ok k by (simp add: accOK_def)
  qed
  then show ?thesis
    using ok unfolding accOK_def replaceOrder_def by simp
qed

lemma deliveredCopy_keeps:
  "Order.id (deliveredCopy t hs ds ord) = Order.id ord
   \<and> Order.status (deliveredCopy t hs ds ord) = DELIVERED
   \<and> cookingTimeRemainingMs (deliveredCopy t hs ds ord) = cookingTimeRemainingMs ord"
  by (simp add: deliveredCopy_def Let_def split: option.splits)

lemma accOK_markDelivered:
  assumes "accOK os acc"
  shows "accOK os (markDelivered t hs ds orderIdx acc)"
proof -
  have "accOK os (replaceOrder orderIdx (deliveredCopy t hs ds (nextOrders acc ! orderIdx)) acc)"
    using assms by (rule accOK_replace) (simp_all add: deliveredCopy_keeps)
  then show ?thesis
    by (simp add: markDelivered_def accOK_ordersSet)
qed

lemma accOK_stampPickup: "accOK os acc \<Longrightarrow> accOK os (stampPickup t oid acc)"
  by (auto simp: stampPickup_def split: option.splits intro!: accOK_mutate)

lemma accOK_fold_stampPickup:
  "accOK os acc \<Longrightarrow> accOK os (fold (\<lambda>ord. stampPickup t (Order.id ord)) xs acc)"
  by (induction xs arbitrary: acc) (simp_all add: accOK_stampPickup)

lemma accOK_startDelivery: "accOK os acc \<Longrightarrow> accOK os (snd (startDelivery t w rider myOrders acc))"
  by (simp add: startDelivery_def accOK_fold_stampPickup split: option.splits prod.splits)

lemma accOK_deliverHere: "accOK os acc \<Longrightarrow> accOK os (snd (deliverHere t w rider acc))"
  by (simp add: deliverHere_def Let_def accOK_markDelivered split: option.splits)

lemma accOK_finishDelivery: "accOK os acc \<Longrightarrow> accOK os (snd (finishDelivery w rider acc))"
  by (simp add: finishDelivery_def Let_def split: option.splits prod.splits)

lemma accOK_deliveringStep: "accOK os acc \<Longrightarrow> accOK os (snd (deliveringStep t w rider acc))"
proof -
  assume ok: "accOK os acc"
  obtain rider1 acc1 where step: "deliverHere t w rider acc = (rider1, acc1)"
    by (cases "deliverHere t w rider acc")
  have "accOK os acc1"
    using accOK_deliverHere[OF ok, of t w rider] step by simp
  then show ?thesis
    using accOK_finishDelivery[of os acc1 w rider1] by (simp add: deliveringStep_def step)
qed

lemma accOK_movingStep: "accOK os acc \<Longrightarrow> accOK os (snd (movingStep rider acc))"
  by (simp add: movingStep_def split: prod.splits)

lemma accOK_riderStep: "accOK os acc \<Longrightarrow> accOK os (snd (riderStep t w rider acc))"
  by (simp add: riderStep_def Let_def accOK_movingStep accOK_startDelivery accOK_deliveringStep)

lemma accOK_fold_riderStep:
  "accOK os (snd st) \<Longrightarrow>
   accOK os (snd (fold (\<lambda>rider (out, a). case riderStep t w rider a of (rider', a') \<Rightarrow> (out @ [rider'], a')) rs st))"
proof (induction rs arbitrary: st)
  case Nil
  then show ?case by simp
next
  case (Cons rider rs)
  obtain out a where st: "st = (out, a)"
    by (cases st)
  obtain rider' a' where step: "riderStep t w rider a = (rider', a')"
    by (cases "riderStep t w rider a")
  have "accOK os a'"
    using accOK_riderStep[of os a t w rider] Cons.prems st step by simp
  then show ?case
    using Cons.IH[of "(out @ [rider'], a')"] st step by simp
qed

lemma accOK_mapRiders: "accOK os acc \<Longrightarrow> accOK os (snd (mapRiders t w rs acc))"
  unfolding mapRiders_def by (rule accOK_fold_riderStep) simp

lemma accOK_dispatchOne: "accOK os (snd st) \<Longrightarrow> accOK os (snd (dispatchOne fair w i st))"
  by (cases st)
     (auto simp: dispatchOne_def Let_def split: option.splits intro!: accOK_mutate)

lemma accOK_fold_dispatchOne:
  "accOK os (snd st) \<Longrightarrow> accOK os (snd (fold (dispatchOne fair w) is st))"
  by (induction "is" arbitrary: st) (simp_all add: accOK_dispatchOne)

lemma accOK_dispatchPending: "accOK os (snd st) \<Longrightarrow> accOK os (snd (dispatchPending fair w st))"
  by (cases st) (simp add: dispatchPending_def Let_def accOK_fold_dispatchOne)

lemma accOK_syncRider: "accOK os (snd st) \<Longrightarrow> accOK os (snd (syncRider ur st))"
  by (cases st) (simp add: syncRider_def split: option.splits)

lemma accOK_fold_syncRider: "accOK os (snd st) \<Longrightarrow> accOK os (snd (fold syncRider urs st))"
  by (induction urs arbitrary: st) (simp_all add: accOK_syncRider)

lemma accOK_push: "accOK os acc \<Longrightarrow> accOK os (acc\<lparr>nextOrders := nextOrders acc @ new\<rparr>)"
  by (simp add: accOK_def nth_append)

lemma accOK_autoGenerate:
  "accOK os (snd st) \<Longrightarrow> accOK os (snd (fst (autoGenerate weightedAssignment env cl w st)))"
  by (cases st)
     (simp add: autoGenerate_def accOK_fold_syncRider accOK_push split: prod.splits)

lemma advances_refl: "advances os os"
  by (simp add: advances_def)

lemma advances_trans: "advances os os' \<Longrightarrow> advances os' os'' \<Longrightarrow> advances os os''"
  unfolding advances_def by (metis (no_types, lifting) le_trans less_le_trans)

lemma advances_append: "advances os (os @ new)"
  by (simp add: advances_def nth_append)

lemma tick_accOK:
  "\<exists>acc. accOK (orders w) acc
     \<and> orders (fst (handleSimulationTick weightedAssignment env cl w))
         = (if ordersSet acc then nextOrders acc else prevOrders acc)"
proof -
  define acc0 where "acc0 = \<lparr>nextOrders = map cook (orders w), prevOrders = orders w,
                  sharedObj = map (\<lambda>ord. Order.status ord \<noteq> COOKING) (orders w),
                  ordersSet = list_ex cookChanged (orders w),
                  ridersChanged = False, pathTraceChanged = False, nextPathTrace = pathTrace cl,
                  distanceAcc = distanceTraveled w, messageAcc = statusMessage w, thrown = False\<rparr>"
  define st1 where "st1 = mapRiders (now env) w (riders w) acc0"
  define st2 where "st2 = (if thrown (snd st1) then st1 else dispatchPending (fairnessMode cl) w st1)"
  define res where "res = (if thrown (snd st2) then (st2, autoOrderRef w)
                            else autoGenerate weightedAssignment env cl w st2)"
  have ok0: "accOK (orders w) acc0"
    unfolding acc0_def by (rule accOK_init)
  have ok1: "accOK (orders w) (snd st1)"
    unfolding st1_def using ok0 by (rule accOK_mapRiders)
  have ok2: "accOK (orders w) (snd st2)"
    unfolding st2_def using ok1 by (simp add: accOK_dispatchPending)
  have ok3: "accOK (orders w) (snd (fst res))"
    unfolding res_def using ok2 by (simp add: accOK_autoGenerate)
  have "orders (fst (handleSimulationTick weightedAssignment env cl w))
      = (if ordersSet (snd (fst res)) then nextOrders (snd (fst res)) else prevOrders (snd (fst res)))"
    unfolding handleSimulationTick_def Let_def acc0_def[symmetric] st1_def[symmetric]
      st2_def[symmetric] res_def[symmetric]
    by (simp add: split_def)
  then show ?thesis
    using ok3 by blast
qed

lemma tick_orders:
  assumes i: "i < length (orders w)"
  shows "i < length (orders (fst (handleSimulationTick weightedAssignment env cl w)))"
    and "Order.id (orders (fst (handleSimulationTick weightedAssignment env cl w)) ! i) = Order.id (orders w ! i)"
    and "rank (Order.status (orders w ! i))
           \<le> rank (Order.status (orders (fst (handleSimulationTick weightedAssignment env cl w)) ! i))"
    and "Order.status (orders w ! i) = COOKING \<Longrightarrow>
         cookingTimeRemainingMs (orders (fst (handleSimulationTick weightedAssignment env cl w)) ! i)
           = max 0 (cookingTimeRemainingMs (orders w ! i) - DELAY_MS)"
proof -
  obtain acc where ok: "accOK (orders w) acc"
    and res: "orders (fst (handleSimulationTick weightedAssignment env cl w))
                = (if ordersSet acc then nextOrders acc else prevOrders acc)"
    using tick_accOK by blast
  have len: "length (prevOrders acc) = length (orders w)" "length (orders w) \<le> length (nextOrders acc)"
    and tr: "tracks (orders w ! i) (nextOrders acc ! i)"
    and un: "untouched (orders w ! i) (prevOrders acc ! i)"
    and flag: "list_ex cookChanged (orders w) \<Longrightarrow> ordersSet acc"
    using ok i by (simp_all add: accOK_def)
  show "i < length (orders (fst (handleSimulationTick weightedAssignment env cl w)))"
    using i len by (simp add: res)
  show "Order.id (orders (fst (handleSimulationTick weightedAssignment env cl w)) ! i) = Order.id (orders w ! i)"
    using tr un by (simp add: res tracks_def untouched_def)
  show "rank (Order.status (orders w ! i))
           \<le> rank (Order.status (orders (fst (handleSimulationTick weightedAssignment env cl w)) ! i))"
    using tr un by (simp add: res tracks_def untouched_def)
  show "cookingTimeRemainingMs (orders (fst (handleSimulationTick weightedAssignment env cl w)) ! i)
           = max 0 (cookingTimeRemainingMs (orders w ! i) - DELAY_MS)"
    if cooking: "Order.status (orders w ! i) = COOKING"
  proof (cases "ordersSet acc")
    case True
    then show ?thesis
      using tr cooking by (simp add: res tracks_def)
  next
    case False
    then have "\<not> list_ex cookChanged (orders w)"
      using flag by blast
    then have "\<not> cookChanged (orders w ! i)"
      using i by (auto simp: list_ex_iff)
    then have "max 0 (cookingTimeRemainingMs (orders w ! i) - DELAY_MS) = cookingTimeRemainingMs (orders w ! i)"
      using cooking by (simp add: cookChanged_def)
    then show ?thesis
      using False un by (simp add: res untouched_def)
  qed
qed

lemma tick_advances: "advances (orders w) (orders (fst (handleSimulationTick weightedAssignment env cl w)))"
  unfolding advances_def using tick_orders(1,2,3)[of _ w weightedAssignment env cl]
  by (metis leI less_irrefl_nat nat_less_le not_less_iff_gr_or_eq)

lemma createOrder_orders:
  "createOrder weightedAssignment newOrderId stamp home_id hotel_id w = Inr w' \<Longrightarrow>
   orders w' = orders w \<or> (\<exists>ord. orders w' = orders w @ [ord])"
  unfolding createOrder_def
  by (auto simp: Let_def split: option.splits list.splits prod.splits if_splits)

lemma applyOp_advances: "advances (orders w) (orders (applyOp weightedAssignment op w))"
proof (cases op)
  case (Tick env cl)
  then show ?thesis
    by (simp add: tick_advances)
next
  case (Create newOrderId stamp home_id hotel_id)
  show ?thesis
  proof (cases "createOrder weightedAssignment newOrderId stamp home_id hotel_id w")
    case (Inl failure)
    then show ?thesis
      using Create by (simp add: advances_refl)
  next
    case (Inr w')
    then show ?thesis
      using Create createOrder_orders[OF Inr] by (auto simp: advances_refl advances_append)
  qed
qed

lemma run_advances: "advances (orders w) (orders (run weightedAssignment ops w))"
  unfolding run_def
proof (induction ops arbitrary: w)
  case Nil
  then show ?case by (simp add: advances_refl)
next
  case (Cons op ops)
  have "advances (orders w) (orders (applyOp weightedAssignment op w))"
    by (rule applyOp_advances)
  moreover have "advances (orders (applyOp weightedAssignment op w))
      (orders (fold (applyOp weightedAssignment) ops (applyOp weightedAssignment op w)))"
    by (rule Cons.IH)
  ultimately show ?case
    using advances_trans by simp
qed

text \<open>
  C8.  Over every sequence of ticks and order creations an order stays in the collection,
  keeps its id, and its status never moves backward along COOKING, READY, DELIVERED; and
  one tick takes the remaining cooking time of an order that is COOKING down by
  \<open>DELAY_MS\<close>, clamped at zero.
\<close>

theorem order_status_monotone:
  assumes "i < length (orders w)"
  shows "i < length (orders (run weightedAssignment ops w))
         \<and> Order.id (orders (run weightedAssignment ops w) ! i) = Order.id (orders w ! i)
         \<and> rank (Order.status (orders w ! i)) \<le> rank (Order.status (orders (run weightedAssignment ops w) ! i))
         \<and> (Order.status (orders w ! i) = COOKING \<longrightarrow>
              cookingTimeRemainingMs (orders (fst (handleSimulationTick weightedAssignment env cl w)) ! i)
                = max 0 (cookingTimeRemainingMs (orders w ! i) - DELAY_MS))"
proof -
  have "advances (orders w) (orders (run weightedAssignment ops w))"
    by (rule run_advances)
  then have "i < length (orders (run weightedAssignment ops w))
         \<and> Order.id (orders (run weightedAssignment ops w) ! i) = Order.id (orders w ! i)
         \<and> rank (Order.status (orders w ! i)) \<le> rank (Order.status (orders (run weightedAssignment ops w) ! i))"
    using assms unfolding advances_def by auto
  then show ?thesis
    using tick_orders(4)[OF assms] by blast
qed

theorem order_status_monotone_witness:
  "0 < length (orders batchWorld)
   \<and> 0 < length (orders (run noWeighted
          [Tick \<lparr>now = 1000, random = 0, randomUUID = ''o9'', clock = ''12:00:01''\<rparr> batchWorld,
           Create ''o2'' ''12:00:05'' ''d2'' ''h1''] batchWorld))
   \<and> rank (Order.status (orders batchWorld ! 0))
       \<le> rank (Order.status (orders (run noWeighted
          [Tick \<lparr>now = 1000, random = 0, randomUUID = ''o9'', clock = ''12:00:01''\<rparr> batchWorld,
           Create ''o2'' ''12:00:05'' ''d2'' ''h1''] batchWorld) ! 0))
   \<and> Order.status (orders batchWorld ! 0) = COOKING
   \<and> cookingTimeRemainingMs (orders (fst (handleSimulationTick noWeighted
          \<lparr>now = 1000, random = 0, randomUUID = ''o9'', clock = ''12:00:01''\<rparr> batchWorld batchWorld)) ! 0)
       = max 0 (cookingTimeRemainingMs (orders batchWorld ! 0) - DELAY_MS)"
proof -
  have present: "0 < length (orders batchWorld)"
    by (simp add: batchWorld_def)
  have cooking: "Order.status (orders batchWorld ! 0) = COOKING"
    by (simp add: batchWorld_def freshOrder_def)
  show ?thesis
    using order_status_monotone[OF present, of noWeighted
        "[Tick \<lparr>now = 1000, random = 0, randomUUID = ''o9'', clock = ''12:00:01''\<rparr> batchWorld,
          Create ''o2'' ''12:00:05'' ''d2'' ''h1'']"
        "\<lparr>now = 1000, random = 0, randomUUID = ''o9'', clock = ''12:00:01''\<rparr>" batchWorld]
      present cooking by blast
qed

end
